theory Spec2Isabelle
  imports Main "HOL-Library.Word" "HOL-Library.Sublist"
begin

section \<open>JavaScript strings\<close>

text \<open>
  A JavaScript string is a sequence of UTF-16 code units. File paths, media types, error
  messages and extracted text are all values of this type. \<open>js\<close> writes an ASCII literal
  as such a string.
\<close>

type_synonym jschar = "16 word"
type_synonym jsstring = "jschar list"

definition js :: "string \<Rightarrow> jsstring" where
  "js s = map (\<lambda>c. of_nat (of_char c)) s"

text \<open>The character class \<open>[ \t]\<close> of the first regular expression of \<open>cleanContent\<close>.\<close>

definition is_blank :: "jschar \<Rightarrow> bool" where
  "is_blank c = (c = 0x20 \<or> c = 0x09)"

text \<open>
  The code units that \<open>String.prototype.trim\<close> removes: the WhiteSpace and LineTerminator
  productions of ECMAScript (TAB, LF, VT, FF, CR, SP, NBSP, the Unicode space separators,
  LS, PS and the byte order mark).
\<close>

definition is_white_space :: "jschar \<Rightarrow> bool" where
  "is_white_space c =
     (c = 0x09 \<or> c = 0x0A \<or> c = 0x0B \<or> c = 0x0C \<or> c = 0x0D \<or> c = 0x20 \<or> c = 0xA0 \<or>
      c = 0x1680 \<or> (0x2000 \<le> c \<and> c \<le> 0x200A) \<or> c = 0x2028 \<or> c = 0x2029 \<or>
      c = 0x202F \<or> c = 0x205F \<or> c = 0x3000 \<or> c = 0xFEFF)"

definition trim :: "jsstring \<Rightarrow> jsstring" where
  "trim s = rev (dropWhile is_white_space (rev (dropWhile is_white_space s)))"

definition startsWith :: "jsstring \<Rightarrow> jsstring \<Rightarrow> bool" where
  "startsWith s p = (take (length p) s = p)"

section \<open>JavaScript values and errors\<close>

text \<open>
  JavaScript is untyped, so a parameter that is documented as a string can hold any
  value. Of a value, the code modelled here asks only whether it is falsy and whether
  it is a string; numbers are integers or \<open>NaN\<close>, and \<open>VObject\<close> is any object that has no
  method named \<open>replace\<close> (a plain object, an array).
\<close>

datatype jsvalue =
    VUndefined
  | VNull
  | VBoolean bool
  | VNumber int
  | VNaN
  | VString jsstring
  | VObject

text \<open>\<open>ToBoolean\<close>: what \<open>!content\<close> negates.\<close>

fun truthy :: "jsvalue \<Rightarrow> bool" where
  "truthy VUndefined = False"
| "truthy VNull = False"
| "truthy (VBoolean b) = b"
| "truthy (VNumber n) = (n \<noteq> 0)"
| "truthy VNaN = False"
| "truthy (VString s) = (s \<noteq> [])"
| "truthy VObject = True"

text \<open>
  A thrown error object: the name of its constructor, its message and the optional
  \<open>status\<close> property that the error-handling middleware looks at.
\<close>

record jserror =
  error_name :: string
  message :: jsstring
  status :: "nat option"

definition new_Error :: "jsstring \<Rightarrow> jserror" where
  "new_Error msg = \<lparr>error_name = ''Error'', message = msg, status = None\<rparr>"

text \<open>The error of calling a property that is not a function.\<close>

definition new_TypeError :: "jsstring \<Rightarrow> jserror" where
  "new_TypeError msg = \<lparr>error_name = ''TypeError'', message = msg, status = None\<rparr>"

section \<open>The content normalizer (\<open>cleanContent\<close> of contentExtractor.js)\<close>

text \<open>
  \<open>.replace(/[ \t]+/g, ' ')\<close>: scanning from the left, every maximal run of spaces and
  tabs is replaced by one space.
\<close>

function collapse_blanks :: "jsstring \<Rightarrow> jsstring" where
  "collapse_blanks [] = []"
| "collapse_blanks (c # cs) =
     (if is_blank c then 0x20 # collapse_blanks (dropWhile is_blank cs)
      else c # collapse_blanks cs)"
  by pat_completeness auto
termination
  by (relation "measure length") (auto simp: length_dropWhile_le less_Suc_eq_le)

text \<open>
  \<open>.replace(/\n{3,}/g, '\n\n')\<close>: the quantifier is greedy, so a match that starts at a
  line feed followed by at least two more takes the whole run; a run of one or two line
  feeds gives no match and is copied.
\<close>

function collapse_newlines :: "jsstring \<Rightarrow> jsstring" where
  "collapse_newlines [] = []"
| "collapse_newlines (c # cs) =
     (if c = 0x0A \<and> 2 \<le> length (takeWhile (\<lambda>d. d = 0x0A) cs)
      then 0x0A # 0x0A # collapse_newlines (dropWhile (\<lambda>d. d = 0x0A) cs)
      else c # collapse_newlines cs)"
  by pat_completeness auto
termination
  by (relation "measure length") (auto simp: length_dropWhile_le less_Suc_eq_le)

text \<open>\<open>.split('\n')\<close>: the empty string gives one empty line.\<close>

fun split_nl :: "jsstring \<Rightarrow> jsstring list" where
  "split_nl [] = [[]]"
| "split_nl (c # cs) =
     (if c = 0x0A then [] # split_nl cs
      else (case split_nl cs of [] \<Rightarrow> [[c]] | l # ls \<Rightarrow> (c # l) # ls))"

text \<open>\<open>.join('\n')\<close>\<close>

fun join_nl :: "jsstring list \<Rightarrow> jsstring" where
  "join_nl [] = []"
| "join_nl [l] = l"
| "join_nl (l # ls) = l @ 0x0A # join_nl ls"

text \<open>
  The method chain of \<open>cleanContent\<close>, on a string:
  \<open>content.replace(/[ \t]+/g, ' ').replace(/\n{3,}/g, '\n\n').split('\n')
  .map(line => line.trim()).join('\n').trim()\<close>.
\<close>

definition clean_chain :: "jsstring \<Rightarrow> jsstring" where
  "clean_chain s = trim (join_nl (map trim (split_nl (collapse_newlines (collapse_blanks s)))))"

text \<open>
  \<open>cleanContent\<close> itself: the guard \<open>if (!content) return ''\<close> answers every falsy value
  with the empty string; a truthy string goes through the method chain; on any other
  truthy value the first call of the chain, \<open>content.replace\<close>, is a call of something
  that is not a function, and throws a \<open>TypeError\<close>.
\<close>

definition cleanContent :: "jsvalue \<Rightarrow> jserror + jsstring" where
  "cleanContent content =
     (if \<not> truthy content then Inr []
      else case content of
             VString s \<Rightarrow> Inr (clean_chain s)
           | _ \<Rightarrow> Inl (new_TypeError (js ''content.replace is not a function'')))"

section \<open>Predicates on normalized text\<close>

text \<open>A string that neither begins nor ends with a white-space code unit.\<close>

definition trimmed :: "jsstring \<Rightarrow> bool" where
  "trimmed s = (s = [] \<or> (\<not> is_white_space (hd s) \<and> \<not> is_white_space (last s)))"

text \<open>No tab and no two adjacent spaces.\<close>

fun single_spaced :: "jsstring \<Rightarrow> bool" where
  "single_spaced [] = True"
| "single_spaced [c] = (c \<noteq> 0x09)"
| "single_spaced (c # d # cs) = (c \<noteq> 0x09 \<and> \<not> (c = 0x20 \<and> d = 0x20) \<and> single_spaced (d # cs))"

text \<open>Every line of the string is trimmed.\<close>

definition lines_trimmed :: "jsstring \<Rightarrow> bool" where
  "lines_trimmed s = (\<forall>l\<in>set (split_nl s). trimmed l)"

text \<open>The three properties every output of the normalizer has.\<close>

definition normal_form :: "jsstring \<Rightarrow> bool" where
  "normal_form y = (single_spaced y \<and> lines_trimmed y \<and> trimmed y)"

text \<open>
  \<open>nl_run3 k s\<close>: the string \<open>s\<close>, read after \<open>k\<close> line feeds, contains three line feeds
  in a row; \<open>nl_run3 0 s\<close> says that \<open>s\<close> itself does.
\<close>

fun nl_run3 :: "nat \<Rightarrow> jsstring \<Rightarrow> bool" where
  "nl_run3 k [] = False"
| "nl_run3 k (c # cs) = (if c = 0x0A then 2 \<le> k \<or> nl_run3 (Suc k) cs else nl_run3 0 cs)"

section \<open>Errors, the file system and the console\<close>

type_synonym path = jsstring
type_synonym bytes = "8 word list"

text \<open>
  The informational lines written with \<open>console.log\<close>, with the numbers they print, and
  the calls that reach the file system, in the order in which they happen.
\<close>

datatype logline =
    PdfExtracted nat nat
  | RunningOcr
  | OcrComplete nat
  | TextFileRead nat
  | CleanedUp
  | ProcessingFile jsstring

datatype event =
    ExistsSync path
  | UnlinkSync path
  | ReadFileSync path
  | Recognize path
  | WriteFile path
  | ConsoleLog logline
  | ConsoleError jsstring jserror

text \<open>
  The world a call runs in: the files on disk, the paths whose deletion or reading the
  operating system refuses (with the error it raises), and the trace of events so far.
\<close>

record world =
  files :: "path \<rightharpoonup> bytes"
  unlink_failure :: "path \<rightharpoonup> jserror"
  read_failure :: "path \<rightharpoonup> jserror"
  trace :: "event list"

text \<open>
  The two ways in which a call ends without a value. \<open>Thrown e\<close>: the call throws \<open>e\<close> (an
  \<open>async\<close> function rejects with it), and a \<open>catch\<close> block around the call receives it.
  \<open>Uncaught e\<close>: \<open>e\<close> is thrown outside the call, from a callback that the event loop runs
  while the call is waiting; no \<open>catch\<close> block of the call sees it, and since index.js
  installs no handler for uncaught exceptions the process exits there: the call neither
  returns nor throws, and nothing after it runs.
\<close>

datatype abrupt =
    Thrown jserror
  | Uncaught jserror

text \<open>A computation ends abruptly (\<open>Inl\<close>) or returns (\<open>Inr\<close>), and changes the world.\<close>

type_synonym 'a io = "world \<Rightarrow> (abrupt + 'a) \<times> world"

definition return_io :: "'a \<Rightarrow> 'a io" where
  "return_io x w = (Inr x, w)"

definition throw_io :: "jserror \<Rightarrow> 'a io" where
  "throw_io e w = (Inl (Thrown e), w)"

definition bind_io :: "'a io \<Rightarrow> ('a \<Rightarrow> 'b io) \<Rightarrow> 'b io" where
  "bind_io m f w = (case m w of (Inl a, w') \<Rightarrow> (Inl a, w') | (Inr x, w') \<Rightarrow> f x w')"

text \<open>\<open>try { m } catch (error) { h }\<close>: only what \<open>m\<close> throws reaches the handler.\<close>

definition try_catch :: "'a io \<Rightarrow> (jserror \<Rightarrow> 'a io) \<Rightarrow> 'a io" where
  "try_catch m h w =
     (case m w of
        (Inl (Thrown e), w') \<Rightarrow> h e w'
      | (Inl (Uncaught e), w') \<Rightarrow> (Inl (Uncaught e), w')
      | (Inr x, w') \<Rightarrow> (Inr x, w'))"

definition emit :: "event \<Rightarrow> unit io" where
  "emit ev w = (Inr (), w\<lparr>trace := trace w @ [ev]\<rparr>)"

text \<open>A result that is a value or a thrown error, as a computation.\<close>

definition lift_result :: "jserror + 'a \<Rightarrow> 'a io" where
  "lift_result r w = (map_sum Thrown id r, w)"

definition enoent :: "string \<Rightarrow> path \<Rightarrow> jserror" where
  "enoent syscall p =
     new_Error (js ''ENOENT: no such file or directory, '' @ js syscall @ js '' '' @
                0x27 # p @ [0x27])"

text \<open>\<open>fs.existsSync\<close> never throws.\<close>

definition existsSync :: "path \<Rightarrow> bool io" where
  "existsSync p w = (Inr (files w p \<noteq> None), w\<lparr>trace := trace w @ [ExistsSync p]\<rparr>)"

definition unlinkSync :: "path \<Rightarrow> unit io" where
  "unlinkSync p w =
     (let w1 = w\<lparr>trace := trace w @ [UnlinkSync p]\<rparr> in
      case unlink_failure w p of
        Some e \<Rightarrow> (Inl (Thrown e), w1)
      | None \<Rightarrow>
          (case files w p of
             None \<Rightarrow> (Inl (Thrown (enoent ''unlink'' p)), w1)
           | Some b \<Rightarrow> (Inr (), w1\<lparr>files := (files w1)(p := None)\<rparr>)))"

definition readFileSync :: "path \<Rightarrow> bytes io" where
  "readFileSync p w =
     (let w1 = w\<lparr>trace := trace w @ [ReadFileSync p]\<rparr> in
      case read_failure w p of
        Some e \<Rightarrow> (Inl (Thrown e), w1)
      | None \<Rightarrow>
          (case files w p of
             None \<Rightarrow> (Inl (Thrown (enoent ''open'' p)), w1)
           | Some b \<Rightarrow> (Inr b, w1)))"

section \<open>The extractors and the orchestrator (contentExtractor.js)\<close>

text \<open>
  The libraries the extractors call are parameters: the PDF text-layer decoder
  (\<open>pdf-parse\<close>), the OCR engine (\<open>Tesseract.recognize\<close> with the language \<open>eng\<close>, given
  the bytes at the path, if any) and the UTF-8 decoder of \<open>fs.readFileSync(path, 'utf-8')\<close>.
  The progress lines the OCR engine's logger callback writes while it runs are not part
  of the model.
\<close>

record pdf_data =
  numpages :: nat
  pdf_text :: jsstring

text \<open>
  What the OCR engine does with an image: it recognizes a text, or it fails with a
  description of the failure (the file is missing, the bytes are no image).
\<close>

datatype ocr_result =
    OcrText jsstring
  | OcrFailure jsstring

record env =
  pdfParse :: "bytes \<Rightarrow> jserror + pdf_data"
  recognize :: "bytes option \<Rightarrow> ocr_result"
  utf8_decode :: "bytes \<Rightarrow> jsstring"

text \<open>
  \<open>await Tesseract.recognize(filePath, 'eng', { logger })\<close>. The call passes a \<open>logger\<close>
  and no \<open>errorHandler\<close>. On a failure tesseract.js, in the handler of its worker's
  messages, rejects the promise and then, having no \<open>errorHandler\<close>, throws
  \<open>Error(data)\<close> from that handler; the exception is outside every \<open>try\<close> block of the
  caller, so it is uncaught and ends the process before the rejection is delivered.
\<close>

definition tesseract_recognize :: "env \<Rightarrow> path \<Rightarrow> jsstring io" where
  "tesseract_recognize ev filePath =
     bind_io (emit (Recognize filePath)) (\<lambda>_ w.
       case recognize ev (files w filePath) of
         OcrText t \<Rightarrow> (Inr t, w)
       | OcrFailure d \<Rightarrow> (Inl (Uncaught (new_Error d)), w))"

text \<open>The file object that multer hands to the route (\<open>req.file\<close>).\<close>

record multer_file =
  path :: path
  mimetype :: jsstring
  originalname :: jsstring

definition cleanupFile :: "path \<Rightarrow> unit io" where
  "cleanupFile filePath =
     try_catch
       (bind_io (existsSync filePath) (\<lambda>ex.
          if ex then bind_io (unlinkSync filePath) (\<lambda>_. emit (ConsoleLog CleanedUp))
          else return_io ()))
       (\<lambda>error. emit (ConsoleError (js ''File cleanup error:'') error))"

definition extractFromPDF :: "env \<Rightarrow> path \<Rightarrow> jsstring io" where
  "extractFromPDF ev filePath =
     try_catch
       (bind_io (readFileSync filePath) (\<lambda>dataBuffer.
        bind_io (lift_result (pdfParse ev dataBuffer)) (\<lambda>data.
        bind_io (emit (ConsoleLog (PdfExtracted (numpages data) (length (pdf_text data))))) (\<lambda>_.
        return_io (pdf_text data)))))
       (\<lambda>error.
        bind_io (emit (ConsoleError (js ''PDF extraction error:'') error)) (\<lambda>_.
        throw_io (new_Error (js ''Failed to extract text from PDF: '' @ message error))))"

definition extractFromImage :: "env \<Rightarrow> path \<Rightarrow> jsstring io" where
  "extractFromImage ev filePath =
     try_catch
       (bind_io (emit (ConsoleLog RunningOcr)) (\<lambda>_.
        bind_io (tesseract_recognize ev filePath) (\<lambda>text.
        bind_io (emit (ConsoleLog (OcrComplete (length text)))) (\<lambda>_.
        return_io text))))
       (\<lambda>error.
        bind_io (emit (ConsoleError (js ''OCR extraction error:'') error)) (\<lambda>_.
        throw_io (new_Error (js ''Failed to extract text from image: '' @ message error))))"

definition extractFromText :: "env \<Rightarrow> path \<Rightarrow> jsstring io" where
  "extractFromText ev filePath =
     try_catch
       (bind_io (readFileSync filePath) (\<lambda>buf.
        bind_io (return_io (utf8_decode ev buf)) (\<lambda>content.
        bind_io (emit (ConsoleLog (TextFileRead (length content)))) (\<lambda>_.
        return_io content))))
       (\<lambda>error.
        bind_io (emit (ConsoleError (js ''Text file read error:'') error)) (\<lambda>_.
        throw_io (new_Error (js ''Failed to read text file: '' @ message error))))"

definition extractFromFile :: "env \<Rightarrow> multer_file \<Rightarrow> jsstring io" where
  "extractFromFile ev file =
     (let filePath = path file; mimeType = mimetype file in
      try_catch
        (bind_io
           (if mimeType = js ''application/pdf'' then extractFromPDF ev filePath
            else if startsWith mimeType (js ''image/'') then extractFromImage ev filePath
            else if mimeType = js ''text/plain'' then extractFromText ev filePath
            else throw_io (new_Error (js ''Unsupported file type: '' @ mimeType)))
           (\<lambda>content.
            bind_io (cleanupFile filePath) (\<lambda>_.
            lift_result (cleanContent (VString content)))))
        (\<lambda>error.
         bind_io (cleanupFile filePath) (\<lambda>_.
         throw_io error)))"

section \<open>The upload route (uploadRoutes.js) and the error middleware (index.js)\<close>

text \<open>The part of JSON that the responses use.\<close>

datatype json =
    JBool bool
  | JNumber nat
  | JString jsstring
  | JObject "(string \<times> json) list"

record response =
  status_code :: nat
  body :: json




text \<open>
  \<open>parseInt\<close> of ECMAScript with no radix argument, on the value of an environment
  variable (\<open>None\<close> is \<open>undefined\<close>, which \<open>ToString\<close> turns into the text
  \<open>undefined\<close>): leading white space is skipped, a sign and a hexadecimal prefix are
  read, and the longest run of digits is the value; no digit at all gives \<open>NaN\<close>, here
  \<open>None\<close>. The result is the mathematical integer; the rounding of values above \<open>2^53\<close>
  to a double is not modelled.
\<close>

definition digit_of :: "jschar \<Rightarrow> nat option" where
  "digit_of c =
     (if 0x30 \<le> c \<and> c \<le> 0x39 then Some (unat c - 48)
      else if 0x61 \<le> c \<and> c \<le> 0x66 then Some (unat c - 87)
      else if 0x41 \<le> c \<and> c \<le> 0x46 then Some (unat c - 55)
      else None)"

definition is_digit :: "nat \<Rightarrow> jschar \<Rightarrow> bool" where
  "is_digit R c = (case digit_of c of None \<Rightarrow> False | Some d \<Rightarrow> d < R)"

definition parseInt :: "jsstring option \<Rightarrow> int option" where
  "parseInt v =
     (let inputString = (case v of None \<Rightarrow> js ''undefined'' | Some s \<Rightarrow> s);
          S = dropWhile is_white_space inputString;
          neg = (S \<noteq> [] \<and> hd S = 0x2D);
          S1 = (if S \<noteq> [] \<and> (hd S = 0x2B \<or> hd S = 0x2D) then tl S else S);
          hex = (startsWith S1 (js ''0x'') \<or> startsWith S1 (js ''0X''));
          R = (if hex then 16 else 10);
          S2 = (if hex then drop 2 S1 else S1);
          Z = takeWhile (is_digit R) S2
      in if Z = [] then None
         else Some ((if neg then - 1 else 1) *
                    int (foldl (\<lambda>a c. a * R + (case digit_of c of None \<Rightarrow> 0 | Some d \<Rightarrow> d)) 0 Z)))"

text \<open>
  \<open>parseInt(process.env.MAX_FILE_SIZE) || 10 * 1024 * 1024\<close>: \<open>NaN\<close> and zero are falsy.
\<close>

definition fileSizeLimit :: "jsstring option \<Rightarrow> int" where
  "fileSizeLimit max_file_size =
     (case parseInt max_file_size of
        None \<Rightarrow> 10 * 1024 * 1024
      | Some n \<Rightarrow> if n = 0 then 10 * 1024 * 1024 else n)"



text \<open>The error-handling middleware of index.js, which \<open>next(error)\<close> reaches.\<close>

definition error_envelope :: "jsstring \<Rightarrow> json" where
  "error_envelope msg = JObject [(''success'', JBool False), (''error'', JString msg)]"

definition error_middleware :: "jserror \<Rightarrow> response io" where
  "error_middleware err =
     bind_io (emit (ConsoleError (js ''Error:'') err)) (\<lambda>_.
     return_io
       \<lparr>status_code = (case status err of None \<Rightarrow> 500 | Some s \<Rightarrow> if s = 0 then 500 else s),
        body = error_envelope
                 (if message err = [] then js ''Internal server error'' else message err)\<rparr>)"

text \<open>The answer of the handler to a successful extraction (\<open>res.json\<close>, status 200).\<close>

definition success_response :: "multer_file \<Rightarrow> jsstring \<Rightarrow> response" where
  "success_response file extractedContent =
     \<lparr>status_code = 200,
      body = JObject
        [(''success'', JBool True),
         (''data'', JObject
            [(''filename'', JString (originalname file)),
             (''fileType'', JString (mimetype file)),
             (''content'', JString extractedContent),
             (''contentLength'', JNumber (length extractedContent))])]\<rparr>"

text \<open>The handler of \<open>POST /file\<close>, given \<open>req.file\<close>.\<close>

definition post_file :: "env \<Rightarrow> multer_file option \<Rightarrow> response io" where
  "post_file ev req_file =
     try_catch
       (case req_file of
          None \<Rightarrow>
            return_io \<lparr>status_code = 400, body = error_envelope (js ''No file uploaded'')\<rparr>
        | Some file \<Rightarrow>
            bind_io (emit (ConsoleLog (ProcessingFile (originalname file)))) (\<lambda>_.
            bind_io (extractFromFile ev file) (\<lambda>extractedContent.
            return_io (success_response file extractedContent))))
       error_middleware"


section \<open>Notions used to state the properties of the orchestrator and the route\<close>

text \<open>The conditional at the head of the \<open>try\<close> block of \<open>extractFromFile\<close>.\<close>

definition extractor_for :: "env \<Rightarrow> multer_file \<Rightarrow> jsstring io" where
  "extractor_for ev file =
     (if mimetype file = js ''application/pdf'' then extractFromPDF ev (path file)
      else if startsWith (mimetype file) (js ''image/'') then extractFromImage ev (path file)
      else if mimetype file = js ''text/plain'' then extractFromText ev (path file)
      else throw_io (new_Error (js ''Unsupported file type: '' @ mimetype file)))"

text \<open>The events a call added to the trace.\<close>

definition new_events :: "world \<Rightarrow> world \<Rightarrow> event list" where
  "new_events w w' = drop (length (trace w)) (trace w')"

text \<open>An event of the file system that checks for a file or removes one.\<close>

fun is_cleanup_event :: "event \<Rightarrow> bool" where
  "is_cleanup_event (ExistsSync p) = True"
| "is_cleanup_event (UnlinkSync p) = True"
| "is_cleanup_event e = False"

text \<open>An event that reads the content of a file.\<close>

fun is_read_event :: "event \<Rightarrow> bool" where
  "is_read_event (ReadFileSync p) = True"
| "is_read_event (Recognize p) = True"
| "is_read_event e = False"

text \<open>What an extractor leaves of the world: everything but the trace, which grows by
  events that neither check for a file nor remove one.\<close>

definition extractor_frame :: "world \<Rightarrow> world \<Rightarrow> bool" where
  "extractor_frame w w' =
     (\<exists>t. w' = w\<lparr>trace := trace w @ t\<rparr> \<and> (\<forall>e\<in>set t. \<not> is_cleanup_event e))"

text \<open>
  Sample values at which the theorems below are instantiated: a decoder that is UTF-8
  on ASCII bytes, a PDF decoder and an OCR engine that fail on every input, one
  uploaded file and a world that holds it.
\<close>

definition ascii_bytes :: "string \<Rightarrow> bytes" where
  "ascii_bytes s = map (\<lambda>c. of_nat (of_char c)) s"

definition sample_env :: env where
  "sample_env =
     \<lparr>pdfParse = (\<lambda>b. Inl (new_Error (js ''Invalid PDF structure''))),
      recognize = (\<lambda>b. OcrFailure (js ''Error: Error attempting to read image.'')),
      utf8_decode = map ucast\<rparr>"

definition sample_file :: "jsstring \<Rightarrow> multer_file" where
  "sample_file mt = \<lparr>path = js ''uploads/1-notes'', mimetype = mt, originalname = js ''notes''\<rparr>"

definition sample_world :: "bytes \<Rightarrow> (path \<rightharpoonup> jserror) \<Rightarrow> world" where
  "sample_world b uf =
     \<lparr>files = [js ''uploads/1-notes'' \<mapsto> b], unlink_failure = uf,
      read_failure = Map.empty, trace = []\<rparr>"

definition eperm :: jserror where
  "eperm = new_Error (js ''EPERM: operation not permitted, unlink'')"

text \<open>A call that returns or throws, as opposed to one that the process does not survive.\<close>

fun returns_or_raises :: "abrupt + 'a \<Rightarrow> bool" where
  "returns_or_raises (Inl (Uncaught e)) = False"
| "returns_or_raises (Inl (Thrown e)) = True"
| "returns_or_raises (Inr x) = True"

text \<open>The decimal numeral of a natural number, as a string.\<close>

definition digit_char :: "nat \<Rightarrow> jschar" where
  "digit_char d = [0x30, 0x31, 0x32, 0x33, 0x34, 0x35, 0x36, 0x37, 0x38, 0x39] ! d"

fun decimal :: "nat \<Rightarrow> jsstring" where
  "decimal n = (if n < 10 then [digit_char n] else decimal (n div 10) @ [digit_char (n mod 10)])"

declare decimal.simps [simp del]

text \<open>A decimal digit.\<close>

definition dec_digit :: "jschar \<Rightarrow> bool" where
  "dec_digit c = (\<exists>d<10. c = digit_char d)"

section \<open>Lines, trimming and the two collapsing passes\<close>

lemma split_nl_not_Nil [simp]: "split_nl s \<noteq> []"
  by (induction s) (auto split: list.splits)

lemma join_split [simp]: "join_nl (split_nl s) = s"
proof (induction s)
  case Nil
  show ?case by simp
next
  case (Cons c s)
  obtain l ls where sp: "split_nl s = l # ls"
    by (cases "split_nl s") auto
  with Cons show ?case
    by (cases ls) auto
qed

lemma split_nl_append_LF: "split_nl (u @ 0x0A # v) = split_nl u @ split_nl v"
proof (induction u)
  case Nil
  show ?case by simp
next
  case (Cons c u)
  obtain l ls where sp: "split_nl u = l # ls"
    by (cases "split_nl u") auto
  with Cons show ?case by simp
qed

lemma split_nl_LF_free: "0x0A \<notin> set l \<Longrightarrow> split_nl l = [l]"
  by (induction l) auto

lemma split_nl_lines_LF_free: "l \<in> set (split_nl s) \<Longrightarrow> 0x0A \<notin> set l"
proof (induction s arbitrary: l)
  case Nil
  then show ?case by simp
next
  case (Cons c s)
  obtain k ks where sp: "split_nl s = k # ks"
    by (cases "split_nl s") auto
  with Cons show ?case
    by (auto split: if_splits)
qed

lemma split_join:
  "ls \<noteq> [] \<Longrightarrow> \<forall>l\<in>set ls. 0x0A \<notin> set l \<Longrightarrow> split_nl (join_nl ls) = ls"
proof (induction ls rule: join_nl.induct)
  case 1
  then show ?case by simp
next
  case (2 l)
  then show ?case by (simp add: split_nl_LF_free)
next
  case (3 l k ks)
  then show ?case
    by (simp add: split_nl_append_LF split_nl_LF_free)
qed

lemma dropWhile_hd_not: "dropWhile P xs \<noteq> [] \<Longrightarrow> \<not> P (hd (dropWhile P xs))"
  by (simp add: hd_dropWhile)

lemma dropWhile_rev_self: "xs \<noteq> [] \<Longrightarrow> \<not> P (last xs) \<Longrightarrow> dropWhile P (rev xs) = rev xs"
  by (cases xs rule: rev_cases) auto

lemma trimmed_trim: "trimmed (trim s)"
proof (cases "trim s = []")
  case True
  then show ?thesis by (simp add: trimmed_def)
next
  case False
  let ?a = "dropWhile is_white_space s"
  let ?b = "dropWhile is_white_space (rev ?a)"
  from False have b: "?b \<noteq> []" by (simp add: trim_def)
  have a: "?a \<noteq> []"
  proof
    assume "?a = []"
    then have "?b = []" by (simp only: rev.simps dropWhile.simps)
    with b show False ..
  qed
  have l: "\<not> is_white_space (hd ?b)" using b by (rule dropWhile_hd_not)
  have "last (rev ?b) = hd ?b" using b by (simp add: last_rev)
  then have 1: "\<not> is_white_space (last (trim s))" using l by (simp add: trim_def)
  obtain p where p: "rev ?a = p @ ?b"
    by (metis takeWhile_dropWhile_id)
  then have "?a = rev ?b @ rev p" by (metis rev_append rev_rev_ident)
  then have "hd ?a = hd (rev ?b)" using b by (metis hd_append2 rev_is_Nil_conv)
  moreover have "\<not> is_white_space (hd ?a)" using a by (rule dropWhile_hd_not)
  ultimately have 2: "\<not> is_white_space (hd (trim s))" by (simp add: trim_def)
  from 1 2 show ?thesis by (simp add: trimmed_def)
qed

lemma trim_trimmed: "trimmed s \<Longrightarrow> trim s = s"
proof (cases s)
  case Nil
  then show ?thesis by (simp add: trim_def)
next
  case (Cons c cs)
  assume "trimmed s"
  with Cons have h: "\<not> is_white_space (hd s)" and l: "\<not> is_white_space (last s)"
    by (auto simp: trimmed_def)
  from h Cons have 1: "dropWhile is_white_space s = s" by simp
  from Cons l have "dropWhile is_white_space (rev s) = rev s"
    by (simp only: dropWhile_rev_self list.distinct not_False_eq_True)
  with 1 show ?thesis by (simp add: trim_def)
qed

lemma trim_decomp:
  "\<exists>p q. s = p @ trim s @ q \<and> (\<forall>c\<in>set p. is_white_space c) \<and> (\<forall>c\<in>set q. is_white_space c)"
proof -
  let ?p = "takeWhile is_white_space s"
  let ?a = "dropWhile is_white_space s"
  let ?q = "takeWhile is_white_space (rev ?a)"
  have "rev ?a = ?q @ rev (trim s)" by (simp add: trim_def)
  then have "?a = trim s @ rev ?q" by (metis rev_append rev_rev_ident)
  then have "s = ?p @ trim s @ rev ?q" by (metis takeWhile_dropWhile_id)
  moreover have "\<forall>c\<in>set ?p. is_white_space c" by (auto dest: set_takeWhileD)
  moreover have "\<forall>c\<in>set (rev ?q). is_white_space c" by (auto dest: set_takeWhileD)
  ultimately show ?thesis by blast
qed

lemma set_trim_subset: "set (trim s) \<subseteq> set s"
  using trim_decomp [of s] by (metis Un_iff set_append subsetI)

lemma trim_Nil [simp]: "trim [] = []"
  by (simp add: trim_def)

lemma trim_trim: "trim (trim s) = trim s"
  by (rule trim_trimmed) (rule trimmed_trim)

lemma single_spaced_Cons:
  "single_spaced (c # s) \<longleftrightarrow> c \<noteq> 0x09 \<and> \<not> (c = 0x20 \<and> s \<noteq> [] \<and> hd s = 0x20) \<and> single_spaced s"
  by (cases s) auto

lemma single_spaced_append:
  "single_spaced (a @ b) \<longleftrightarrow>
     single_spaced a \<and> single_spaced b \<and> \<not> (a \<noteq> [] \<and> b \<noteq> [] \<and> last a = 0x20 \<and> hd b = 0x20)"
proof (induction a)
  case Nil
  show ?case by simp
next
  case (Cons c a)
  show ?case
  proof (cases a)
    case Nil
    then show ?thesis by (auto simp: single_spaced_Cons)
  next
    case (Cons d a')
    with Cons.IH show ?thesis by (auto simp: single_spaced_Cons)
  qed
qed

lemma single_spaced_iff:
  "single_spaced s \<longleftrightarrow> 0x09 \<notin> set s \<and> \<not> sublist [0x20, 0x20] s"
proof (induction s rule: single_spaced.induct)
  case 1
  show ?case by simp
next
  case (2 c)
  show ?case by (auto simp: sublist_Cons_right)
next
  case (3 c d cs)
  then show ?case by (auto simp: sublist_Cons_right)
qed

lemma collapse_blanks_Nil_iff [simp]: "collapse_blanks s = [] \<longleftrightarrow> s = []"
  by (cases s) auto

lemma hd_collapse_blanks:
  "s \<noteq> [] \<Longrightarrow> hd (collapse_blanks s) = (if is_blank (hd s) then 0x20 else hd s)"
  by (cases s) auto

lemma single_spaced_collapse_blanks: "single_spaced (collapse_blanks s)"
proof (induction s rule: collapse_blanks.induct)
  case 1
  show ?case by simp
next
  case (2 c cs)
  show ?case
  proof (cases "is_blank c")
    case True
    let ?r = "dropWhile is_blank cs"
    have "?r \<noteq> [] \<Longrightarrow> \<not> is_blank (hd ?r)" by (rule dropWhile_hd_not)
    then have "?r \<noteq> [] \<Longrightarrow> hd (collapse_blanks ?r) \<noteq> 0x20"
      by (auto simp: hd_collapse_blanks is_blank_def)
    with True 2 show ?thesis by (auto simp: single_spaced_Cons)
  next
    case False
    with 2 show ?thesis
      by (cases "cs = []") (auto simp: single_spaced_Cons hd_collapse_blanks is_blank_def)
  qed
qed

lemma collapse_blanks_single_spaced: "single_spaced s \<Longrightarrow> collapse_blanks s = s"
proof (induction s rule: single_spaced.induct)
  case 1
  show ?case by simp
next
  case (2 c)
  then show ?case by (simp add: is_blank_def)
next
  case (3 c d cs)
  then show ?case by (auto simp: is_blank_def)
qed

lemma collapse_newlines_Nil_iff [simp]: "collapse_newlines s = [] \<longleftrightarrow> s = []"
  by (cases s) auto

lemma hd_collapse_newlines [simp]: "hd (collapse_newlines s) = hd s"
  by (cases s) auto

lemma last_dropWhile: "dropWhile P xs \<noteq> [] \<Longrightarrow> last (dropWhile P xs) = last xs"
  by (metis last_appendR takeWhile_dropWhile_id)

lemma last_collapse_newlines: "last (collapse_newlines s) = last s"
proof (induction s rule: collapse_newlines.induct)
  case 1
  show ?case by simp
next
  case (2 c cs)
  let ?r = "dropWhile (\<lambda>d. d = 0x0A) cs"
  show ?case
  proof (cases "c = 0x0A \<and> 2 \<le> length (takeWhile (\<lambda>d. d = 0x0A) cs)")
    case True
    then have cs: "cs \<noteq> []" by auto
    show ?thesis
    proof (cases "?r = []")
      case True
      then have "\<forall>x\<in>set cs. x = 0x0A" by simp
      then have "last cs = 0x0A" using cs last_in_set by blast
      with \<open>c = 0x0A \<and> _\<close> True cs show ?thesis by simp
    next
      case False
      then have "last ?r = last cs" by (rule last_dropWhile)
      with \<open>c = 0x0A \<and> _\<close> False cs 2 show ?thesis by simp
    qed
  next
    case False
    with 2 show ?thesis by auto
  qed
qed

lemma single_spaced_suffix: "single_spaced (a @ b) \<Longrightarrow> single_spaced b"
  by (simp add: single_spaced_append)

lemma single_spaced_collapse_newlines:
  "single_spaced s \<Longrightarrow> single_spaced (collapse_newlines s)"
proof (induction s rule: collapse_newlines.induct)
  case 1
  show ?case by simp
next
  case (2 c cs)
  let ?r = "dropWhile (\<lambda>d. d = 0x0A) cs"
  show ?case
  proof (cases "c = 0x0A \<and> 2 \<le> length (takeWhile (\<lambda>d. d = 0x0A) cs)")
    case True
    have "single_spaced cs" using 2(3) by (simp add: single_spaced_Cons)
    then have "single_spaced ?r"
      by (metis single_spaced_suffix takeWhile_dropWhile_id)
    with True 2 have "single_spaced (collapse_newlines ?r)" by simp
    with True show ?thesis by (simp add: single_spaced_Cons)
  next
    case False
    have "single_spaced cs" using 2(3) by (simp add: single_spaced_Cons)
    with False 2 have "single_spaced (collapse_newlines cs)" by auto
    with False 2(3) show ?thesis by (auto simp: single_spaced_Cons)
  qed
qed

lemma single_spaced_trim: "single_spaced s \<Longrightarrow> single_spaced (trim s)"
proof -
  assume a: "single_spaced s"
  obtain p q where "s = p @ trim s @ q" using trim_decomp by blast
  with a have "single_spaced (p @ trim s @ q)" by simp
  then show ?thesis by (simp add: single_spaced_append)
qed

lemma single_spaced_join:
  "single_spaced (join_nl ls) \<longleftrightarrow> (\<forall>l\<in>set ls. single_spaced l)"
proof (induction ls rule: join_nl.induct)
  case 1
  show ?case by simp
next
  case (2 l)
  show ?case by simp
next
  case (3 l k ks)
  then show ?case by (auto simp: single_spaced_append single_spaced_Cons)
qed

lemma single_spaced_lines:
  "single_spaced s \<Longrightarrow> l \<in> set (split_nl s) \<Longrightarrow> single_spaced l"
  using single_spaced_join [of "split_nl s"] by simp

lemma is_white_space_LF [simp]: "is_white_space 0x0A"
  by (simp add: is_white_space_def)

lemma is_blank_white_space: "is_blank c \<Longrightarrow> is_white_space c"
  by (auto simp: is_blank_def is_white_space_def)

lemma hd_split_nl_Cons: "c \<noteq> 0x0A \<Longrightarrow> hd (split_nl (c # s)) = c # hd (split_nl s)"
  by (cases "split_nl s") auto

lemma tl_split_nl_Cons: "c \<noteq> 0x0A \<Longrightarrow> tl (split_nl (c # s)) = tl (split_nl s)"
  by (cases "split_nl s") auto

lemma split_nl_hd_tl: "split_nl s = hd (split_nl s) # tl (split_nl s)"
  by (cases "split_nl s") auto

lemma lines_trimmed_tail:
  assumes "lines_trimmed (c # s)" and "is_white_space c"
  shows "lines_trimmed s"
proof (cases "c = 0x0A")
  case True
  with assms show ?thesis by (simp add: lines_trimmed_def)
next
  case False
  have "hd (split_nl (c # s)) \<in> set (split_nl (c # s))"
    by (rule hd_in_set) (rule split_nl_not_Nil)
  with assms(1) have "trimmed (hd (split_nl (c # s)))"
    by (simp only: lines_trimmed_def)
  with False have "trimmed (c # hd (split_nl s))"
    by (metis hd_split_nl_Cons)
  with assms(2) show ?thesis by (simp add: trimmed_def)
qed

lemma lines_trimmed_dropWhile:
  "lines_trimmed s \<Longrightarrow> lines_trimmed (dropWhile is_white_space s)"
  by (induction s) (auto dest: lines_trimmed_tail)

lemma split_nl_append_LF_free:
  "0x0A \<notin> set v \<Longrightarrow> split_nl (u @ v) = butlast (split_nl u) @ [last (split_nl u) @ v]"
proof (induction u)
  case Nil
  then show ?case by (simp add: split_nl_LF_free)
next
  case (Cons c u)
  obtain l ls where sp: "split_nl u = l # ls"
    by (cases "split_nl u") auto
  with Cons show ?case
    by (cases ls) auto
qed

lemma split_nl_rev: "split_nl (rev s) = rev (map rev (split_nl s))"
proof (induction s)
  case Nil
  show ?case by simp
next
  case (Cons c s)
  obtain l ls where sp: "split_nl s = l # ls"
    by (cases "split_nl s") auto
  show ?case
  proof (cases "c = 0x0A")
    case True
    with Cons show ?thesis
      using split_nl_append_LF [of "rev s" "[]"] by simp
  next
    case False
    then have "split_nl (rev s @ [c]) = butlast (split_nl (rev s)) @ [last (split_nl (rev s)) @ [c]]"
      by (simp add: split_nl_append_LF_free)
    with Cons sp False show ?thesis by simp
  qed
qed

lemma trimmed_rev [simp]: "trimmed (rev l) \<longleftrightarrow> trimmed l"
  by (cases "l = []") (auto simp: trimmed_def hd_rev last_rev)

lemma lines_trimmed_rev [simp]: "lines_trimmed (rev s) \<longleftrightarrow> lines_trimmed s"
  by (auto simp: lines_trimmed_def split_nl_rev)

lemma lines_trimmed_trim: "lines_trimmed s \<Longrightarrow> lines_trimmed (trim s)"
  unfolding trim_def
  by (simp add: lines_trimmed_dropWhile)

lemma LF_free_trim: "0x0A \<notin> set l \<Longrightarrow> 0x0A \<notin> set (trim l)"
  using set_trim_subset by blast

lemma split_join_map_trim:
  "split_nl (join_nl (map trim (split_nl s))) = map trim (split_nl s)"
  by (rule split_join) (auto dest: split_nl_lines_LF_free LF_free_trim)

lemma lines_trimmed_join_map_trim: "lines_trimmed (join_nl (map trim (split_nl s)))"
  by (auto simp: lines_trimmed_def split_join_map_trim trimmed_trim)

lemma normal_form_Nil: "normal_form []"
  by (simp add: normal_form_def lines_trimmed_def trimmed_def)

lemma clean_chain_Nil [simp]: "clean_chain [] = []"
  by (simp add: clean_chain_def)

lemma normal_form_clean_chain: "normal_form (clean_chain s)"
proof -
  let ?z = "collapse_newlines (collapse_blanks s)"
  let ?J = "join_nl (map trim (split_nl ?z))"
  have "single_spaced ?z"
    by (simp add: single_spaced_collapse_newlines single_spaced_collapse_blanks)
  then have "\<forall>l\<in>set (map trim (split_nl ?z)). single_spaced l"
    by (auto intro: single_spaced_trim single_spaced_lines)
  then have "single_spaced ?J" by (simp only: single_spaced_join)
  then have 1: "single_spaced (trim ?J)" by (rule single_spaced_trim)
  have 2: "lines_trimmed (trim ?J)"
    by (rule lines_trimmed_trim) (rule lines_trimmed_join_map_trim)
  have 3: "trimmed (trim ?J)" by (rule trimmed_trim)
  from 1 2 3 show ?thesis
    by (simp add: clean_chain_def normal_form_def)
qed

lemma cleanContent_VString: "cleanContent (VString s) = Inr (clean_chain s)"
  by (simp add: cleanContent_def)

lemma cleanContent_falsy: "\<not> truthy v \<Longrightarrow> cleanContent v = Inr []"
  by (simp add: cleanContent_def)

lemma cleanContent_Inr:
  "cleanContent v = Inr y \<Longrightarrow> y = [] \<or> (\<exists>s. v = VString s \<and> y = clean_chain s)"
  by (cases v) (auto simp: cleanContent_def split: if_splits)

lemma normal_form_cleanContent: "cleanContent v = Inr y \<Longrightarrow> normal_form y"
  by (auto dest!: cleanContent_Inr simp: normal_form_Nil normal_form_clean_chain)

lemma split_nl_replicate_LF:
  "split_nl (replicate k 0x0A @ r) = replicate k [] @ split_nl r"
  by (induction k) auto

lemma takeWhile_replicate: "takeWhile P xs = replicate (length (takeWhile P xs)) a" if "\<And>x. P x \<longleftrightarrow> x = a"
proof -
  have "\<forall>x\<in>set (takeWhile P xs). x = a"
    using that by (auto dest: set_takeWhileD)
  then show ?thesis by (simp add: replicate_length_same)
qed

lemma LF_run_decomp:
  "cs = replicate (length (takeWhile (\<lambda>d. d = 0x0A) cs)) 0x0A @ dropWhile (\<lambda>d. d = (0x0A::jschar)) cs"
proof -
  have "takeWhile (\<lambda>d. d = (0x0A::jschar)) cs = replicate (length (takeWhile (\<lambda>d. d = 0x0A) cs)) 0x0A"
    by (rule takeWhile_replicate) simp
  then show ?thesis by (metis takeWhile_dropWhile_id)
qed

lemma split_nl_collapse_newlines:
  "hd (split_nl (collapse_newlines s)) = hd (split_nl s) \<and>
   set (tl (split_nl (collapse_newlines s))) \<subseteq> set (tl (split_nl s))"
proof (induction s rule: collapse_newlines.induct)
  case 1
  show ?case by simp
next
  case (2 c cs)
  let ?k = "length (takeWhile (\<lambda>d. d = (0x0A::jschar)) cs)"
  let ?r = "dropWhile (\<lambda>d. d = (0x0A::jschar)) cs"
  show ?case
  proof (cases "c = 0x0A \<and> 2 \<le> ?k")
    case True
    then have ih: "hd (split_nl (collapse_newlines ?r)) = hd (split_nl ?r)"
        "set (tl (split_nl (collapse_newlines ?r))) \<subseteq> set (tl (split_nl ?r))"
      using 2 by auto
    have "split_nl cs = replicate ?k [] @ split_nl ?r"
      using LF_run_decomp [of cs] split_nl_replicate_LF [of ?k ?r] by simp
    then have a: "set (split_nl cs) = insert [] (set (split_nl ?r))"
      using True by (auto simp: set_replicate_conv_if)
    have "set (split_nl (collapse_newlines ?r)) \<subseteq> set (split_nl ?r)"
      using ih split_nl_hd_tl [of "collapse_newlines ?r"] split_nl_hd_tl [of ?r]
      by (metis insert_mono list.simps(15))
    with a True show ?thesis by auto
  next
    case False
    then have ih: "hd (split_nl (collapse_newlines cs)) = hd (split_nl cs)"
        "set (tl (split_nl (collapse_newlines cs))) \<subseteq> set (tl (split_nl cs))"
      using 2 by auto
    have sub: "set (split_nl (collapse_newlines cs)) \<subseteq> set (split_nl cs)"
      using ih split_nl_hd_tl [of "collapse_newlines cs"] split_nl_hd_tl [of cs]
      by (metis insert_mono list.simps(15))
    show ?thesis
    proof (cases "c = 0x0A")
      case True
      with False sub show ?thesis by simp
    next
      case c: False
      then have "collapse_newlines (c # cs) = c # collapse_newlines cs" by simp
      with c ih show ?thesis
        by (simp only: hd_split_nl_Cons tl_split_nl_Cons simp_thms)
    qed
  qed
qed

lemma set_split_nl_collapse_newlines:
  "set (split_nl (collapse_newlines s)) \<subseteq> set (split_nl s)"
  using split_nl_collapse_newlines [of s]
    split_nl_hd_tl [of "collapse_newlines s"] split_nl_hd_tl [of s]
  by (metis insert_mono list.simps(15))

lemma lines_trimmed_collapse_newlines:
  "lines_trimmed s \<Longrightarrow> lines_trimmed (collapse_newlines s)"
  using set_split_nl_collapse_newlines [of s] by (auto simp: lines_trimmed_def)

lemma trimmed_collapse_newlines: "trimmed s \<Longrightarrow> trimmed (collapse_newlines s)"
  by (simp add: trimmed_def last_collapse_newlines)

lemma clean_chain_normal_form:
  assumes "normal_form y"
  shows "clean_chain y = collapse_newlines y"
proof -
  let ?z = "collapse_newlines y"
  from assms have ss: "single_spaced y" and lt: "lines_trimmed y" and tr: "trimmed y"
    by (simp_all add: normal_form_def)
  have cb: "collapse_blanks y = y" using ss by (rule collapse_blanks_single_spaced)
  have "lines_trimmed ?z" using lt by (rule lines_trimmed_collapse_newlines)
  then have "map trim (split_nl ?z) = split_nl ?z"
    by (auto simp: lines_trimmed_def trim_trimmed intro: map_idI)
  then have "join_nl (map trim (split_nl ?z)) = ?z" by simp
  moreover have "trim ?z = ?z"
    using tr by (intro trim_trimmed trimmed_collapse_newlines)
  ultimately show ?thesis using cb by (simp add: clean_chain_def)
qed

lemma clean_chain_twice:
  "clean_chain (clean_chain s) = collapse_newlines (clean_chain s)"
  by (rule clean_chain_normal_form) (rule normal_form_clean_chain)

lemma nl_run3_mono: "nl_run3 k s \<Longrightarrow> k \<le> k' \<Longrightarrow> nl_run3 k' s"
  by (induction s arbitrary: k k') (auto split: if_splits)

lemma nl_run3_no_LF_start: "s = [] \<or> hd s \<noteq> 0x0A \<Longrightarrow> nl_run3 k s = nl_run3 0 s"
  by (cases s) auto

lemma nl_run3_replicate:
  "nl_run3 k (replicate n 0x0A @ r) \<longleftrightarrow> (0 < n \<and> 3 \<le> k + n) \<or> nl_run3 (k + n) r"
proof (induction n arbitrary: k)
  case 0
  show ?case by simp
next
  case (Suc n)
  show ?case using Suc [of "Suc k"] by (auto dest: nl_run3_mono)
qed

lemma not_nl_run3_collapse_newlines: "\<not> nl_run3 0 (collapse_newlines s)"
proof (induction s rule: collapse_newlines.induct)
  case 1
  show ?case by simp
next
  case (2 c cs)
  let ?k = "length (takeWhile (\<lambda>d. d = (0x0A::jschar)) cs)"
  let ?r = "dropWhile (\<lambda>d. d = (0x0A::jschar)) cs"
  show ?case
  proof (cases "c = 0x0A \<and> 2 \<le> ?k")
    case True
    then have ih: "\<not> nl_run3 0 (collapse_newlines ?r)" using 2 by simp
    have "?r = [] \<or> hd ?r \<noteq> 0x0A" using hd_dropWhile [of "\<lambda>d. d = (0x0A::jschar)" cs] by auto
    then have "collapse_newlines ?r = [] \<or> hd (collapse_newlines ?r) \<noteq> 0x0A" by simp
    then have "nl_run3 2 (collapse_newlines ?r) = nl_run3 0 (collapse_newlines ?r)"
      by (rule nl_run3_no_LF_start)
    with ih True show ?thesis by (simp add: numeral_2_eq_2)
  next
    case False
    then have ih: "\<not> nl_run3 0 (collapse_newlines cs)" using 2 by auto
    show ?thesis
    proof (cases "c = 0x0A")
      case c: False
      with ih show ?thesis by simp
    next
      case True
      with False have k: "?k < 2" by simp
      show ?thesis
      proof (cases cs)
        case Nil
        with True show ?thesis by simp
      next
        case (Cons d ds)
        show ?thesis
        proof (cases "d = 0x0A")
          case d: False
          then have "nl_run3 1 (collapse_newlines cs) = nl_run3 0 (collapse_newlines cs)"
            using Cons by (intro nl_run3_no_LF_start) simp
          with ih True False show ?thesis by simp
        next
          case d: True
          with k Cons have ds: "ds = [] \<or> hd ds \<noteq> 0x0A" by (cases ds) auto
          then have t: "takeWhile (\<lambda>d. d = (0x0A::jschar)) ds = []" by (cases ds) auto
          have cn: "collapse_newlines cs = 0x0A # collapse_newlines ds"
            using Cons d t by simp
          from ds have "collapse_newlines ds = [] \<or> hd (collapse_newlines ds) \<noteq> 0x0A" by simp
          then have e: "\<And>j. nl_run3 j (collapse_newlines ds) = nl_run3 0 (collapse_newlines ds)"
            by (rule nl_run3_no_LF_start)
          from ih cn have "\<not> nl_run3 1 (collapse_newlines ds)" by simp
          then have "\<not> nl_run3 2 (collapse_newlines ds)" using e by blast
          with True False cn show ?thesis by (simp add: numeral_2_eq_2)
        qed
      qed
    qed
  qed
qed

lemma nl_run3_takeWhile:
  "2 \<le> length (takeWhile (\<lambda>d. d = (0x0A::jschar)) cs) \<Longrightarrow> nl_run3 (Suc k) cs"
proof -
  assume a: "2 \<le> length (takeWhile (\<lambda>d. d = (0x0A::jschar)) cs)"
  have "nl_run3 (Suc k) (replicate (length (takeWhile (\<lambda>d. d = (0x0A::jschar)) cs)) 0x0A @
          dropWhile (\<lambda>d. d = (0x0A::jschar)) cs)"
    using a by (simp only: nl_run3_replicate) auto
  then show ?thesis using LF_run_decomp [of cs] by simp
qed

lemma collapse_newlines_no_run: "\<not> nl_run3 0 s \<Longrightarrow> collapse_newlines s = s"
proof (induction s)
  case Nil
  show ?case by simp
next
  case (Cons c cs)
  have "\<not> nl_run3 0 cs"
    using Cons.prems by (auto split: if_splits dest: nl_run3_mono)
  then have ih: "collapse_newlines cs = cs" by (rule Cons.IH)
  have "\<not> (c = 0x0A \<and> 2 \<le> length (takeWhile (\<lambda>d. d = (0x0A::jschar)) cs))"
    using Cons.prems nl_run3_takeWhile [of cs 0] by auto
  with ih show ?case by auto
qed

lemma nl_run3_append_right: "nl_run3 k s \<Longrightarrow> nl_run3 k (s @ q)"
  by (induction s arbitrary: k) (auto split: if_splits)

lemma nl_run3_append_left: "nl_run3 0 s \<Longrightarrow> nl_run3 k (p @ s)"
proof (induction p arbitrary: k)
  case Nil
  then show ?case by (auto dest: nl_run3_mono)
next
  case (Cons c p)
  then show ?case by simp
qed

lemma nl_run3_LF_free_prefix:
  "0x0A \<notin> set l \<Longrightarrow> nl_run3 k (l @ t) = (if l = [] then nl_run3 k t else nl_run3 0 t)"
  by (induction l arbitrary: k) auto

lemma nl_run3_join_map:
  assumes "\<forall>l\<in>set ls. 0x0A \<notin> set l \<and> 0x0A \<notin> set (f l) \<and> (f l = [] \<longleftrightarrow> l = [])"
  shows "nl_run3 k (join_nl (map f ls)) = nl_run3 k (join_nl ls)"
  using assms
proof (induction ls arbitrary: k rule: join_nl.induct)
  case 1
  show ?case by simp
next
  case (2 l)
  then show ?case using nl_run3_LF_free_prefix [of l k "[]"] nl_run3_LF_free_prefix [of "f l" k "[]"]
    by auto
next
  case (3 l m ms)
  then have ih: "\<And>j. nl_run3 j (join_nl (map f (m # ms))) = nl_run3 j (join_nl (m # ms))"
    by simp
  from 3(2) have l: "0x0A \<notin> set l" "0x0A \<notin> set (f l)" "f l = [] \<longleftrightarrow> l = []" by auto
  have "nl_run3 k (l @ 0x0A # join_nl (m # ms)) =
        (if l = [] then 2 \<le> k \<or> nl_run3 (Suc k) (join_nl (m # ms)) else nl_run3 1 (join_nl (m # ms)))"
    using l(1) by (simp add: nl_run3_LF_free_prefix)
  moreover have "nl_run3 k (f l @ 0x0A # join_nl (map f (m # ms))) =
        (if f l = [] then 2 \<le> k \<or> nl_run3 (Suc k) (join_nl (map f (m # ms)))
         else nl_run3 1 (join_nl (map f (m # ms))))"
    using l(2) by (simp add: nl_run3_LF_free_prefix)
  ultimately show ?case using ih l(3) by simp
qed

lemma trim_Nil_iff: "trim s = [] \<longleftrightarrow> (\<forall>c\<in>set s. is_white_space c)"
proof
  assume "trim s = []"
  then have "\<forall>x\<in>set (dropWhile is_white_space s). is_white_space x"
    by (simp add: trim_def)
  then have "dropWhile is_white_space s = []"
    using hd_dropWhile [of is_white_space s] hd_in_set [of "dropWhile is_white_space s"] by blast
  then show "\<forall>c\<in>set s. is_white_space c" by simp
next
  assume "\<forall>c\<in>set s. is_white_space c"
  then have "dropWhile is_white_space s = []" by simp
  then show "trim s = []" by (simp only: trim_def rev.simps dropWhile.simps)
qed

lemma in_set_dropWhile: "x \<in> set xs \<Longrightarrow> \<not> P x \<Longrightarrow> x \<in> set (dropWhile P xs)"
  by (induction xs) auto

lemma collapse_blanks_keeps:
  "c \<in> set s \<Longrightarrow> \<not> is_blank c \<Longrightarrow> c \<in> set (collapse_blanks s)"
proof (induction s rule: collapse_blanks.induct)
  case 1
  then show ?case by simp
next
  case (2 d ds)
  show ?case
  proof (cases "is_blank d")
    case True
    with 2(3,4) have "c \<in> set ds" by auto
    then have "c \<in> set (dropWhile is_blank ds)" using 2(4) by (rule in_set_dropWhile)
    with True 2 show ?thesis by simp
  next
    case False
    with 2 show ?thesis by auto
  qed
qed

lemma LF_not_blank [simp]: "\<not> is_blank 0x0A"
  by (simp add: is_blank_def)

lemma hd_split_nl: "hd (split_nl s) = takeWhile (\<lambda>c. c \<noteq> 0x0A) s"
proof (induction s)
  case Nil
  show ?case by simp
next
  case (Cons c s)
  show ?case
  proof (cases "c = 0x0A")
    case True
    then show ?thesis by simp
  next
    case False
    then have "hd (split_nl (c # s)) = c # hd (split_nl s)" by (rule hd_split_nl_Cons)
    with False Cons show ?thesis by simp
  qed
qed

lemma hd_takeWhile_not: "r = [] \<or> \<not> P (hd r) \<Longrightarrow> takeWhile Q r = [] \<or> \<not> P (hd (takeWhile Q r))"
  by (cases r) auto

lemma split_nl_LF_free_prefix:
  "0x0A \<notin> set b \<Longrightarrow> split_nl (b @ r) = (b @ hd (split_nl r)) # tl (split_nl r)"
proof (induction b)
  case Nil
  show ?case using split_nl_hd_tl [of r] by simp
next
  case (Cons c b)
  then show ?case by simp
qed

lemma split_nl_collapse_blanks:
  "split_nl (collapse_blanks s) = map collapse_blanks (split_nl s)"
proof (induction s rule: collapse_blanks.induct)
  case 1
  show ?case by simp
next
  case (2 c cs)
  show ?case
  proof (cases "is_blank c")
    case True
    let ?b = "takeWhile is_blank cs"
    let ?r = "dropWhile is_blank cs"
    from True 2 have ih: "split_nl (collapse_blanks ?r) = map collapse_blanks (split_nl ?r)"
      by simp
    obtain h t where sr: "split_nl ?r = h # t" by (cases "split_nl ?r") auto
    have cLF: "c \<noteq> 0x0A" using True by auto
    have bLF: "0x0A \<notin> set (c # ?b)" using cLF by (auto dest: set_takeWhileD)
    have "split_nl ((c # ?b) @ ?r) = ((c # ?b) @ hd (split_nl ?r)) # tl (split_nl ?r)"
      using bLF by (rule split_nl_LF_free_prefix)
    moreover have "(c # ?b) @ ?r = c # cs" by simp
    ultimately have rhs: "split_nl (c # cs) = (c # ?b @ h) # t"
      by (simp only: sr list.sel append_Cons)
    have "?r = [] \<or> \<not> is_blank (hd ?r)" using hd_dropWhile [of is_blank cs] by auto
    then have "takeWhile (\<lambda>c. c \<noteq> 0x0A) ?r = [] \<or> \<not> is_blank (hd (takeWhile (\<lambda>c. c \<noteq> 0x0A) ?r))"
      by (rule hd_takeWhile_not)
    then have "hd (split_nl ?r) = [] \<or> \<not> is_blank (hd (hd (split_nl ?r)))"
      by (simp only: hd_split_nl)
    then have "h = [] \<or> \<not> is_blank (hd h)" by (simp only: sr list.sel)
    then have dh: "dropWhile is_blank h = h" by (cases h) auto
    have "\<forall>x\<in>set ?b. is_blank x" by (auto dest: set_takeWhileD)
    then have "dropWhile is_blank (?b @ h) = dropWhile is_blank h"
      by (intro dropWhile_append2) auto
    with dh have "dropWhile is_blank (?b @ h) = h" by simp
    then have 1: "collapse_blanks (c # ?b @ h) = 0x20 # collapse_blanks h"
      using True by (simp only: collapse_blanks.simps if_True)
    have lhs: "split_nl (collapse_blanks (c # cs)) = (0x20 # collapse_blanks h) # map collapse_blanks t"
      using True by (simp add: ih sr)
    show ?thesis by (simp only: lhs rhs 1 list.map)
  next
    case False
    with 2 have ih: "split_nl (collapse_blanks cs) = map collapse_blanks (split_nl cs)"
      by simp
    show ?thesis
    proof (cases "c = 0x0A")
      case True
      with False ih show ?thesis by simp
    next
      case c: False
      obtain l ls where sp: "split_nl cs = l # ls" by (cases "split_nl cs") auto
      with False c ih show ?thesis by simp
    qed
  qed
qed

lemma not_nl_run3_trim: "\<not> nl_run3 0 s \<Longrightarrow> \<not> nl_run3 0 (trim s)"
proof
  assume a: "\<not> nl_run3 0 s" and b: "nl_run3 0 (trim s)"
  obtain p q where s: "s = p @ trim s @ q" using trim_decomp by blast
  from b have "nl_run3 0 (trim s @ q)" by (rule nl_run3_append_right)
  then have "nl_run3 0 (p @ trim s @ q)" by (rule nl_run3_append_left)
  with s a show False by simp
qed

text \<open>A second application changes nothing exactly when the first one left no run of
  three line feeds.\<close>

lemma clean_chain_idem_iff:
  "clean_chain (clean_chain s) = clean_chain s \<longleftrightarrow> \<not> nl_run3 0 (clean_chain s)"
proof
  assume "clean_chain (clean_chain s) = clean_chain s"
  then have "collapse_newlines (clean_chain s) = clean_chain s"
    by (simp add: clean_chain_twice)
  then show "\<not> nl_run3 0 (clean_chain s)"
    using not_nl_run3_collapse_newlines [of "clean_chain s"] by simp
next
  assume "\<not> nl_run3 0 (clean_chain s)"
  then show "clean_chain (clean_chain s) = clean_chain s"
    by (simp add: clean_chain_twice collapse_newlines_no_run)
qed

lemma collapse_blanks_append:
  "\<not> is_blank c \<Longrightarrow> collapse_blanks (p @ c # s) = collapse_blanks p @ c # collapse_blanks s"
proof (induction p rule: collapse_blanks.induct)
  case 1
  then show ?case by simp
next
  case (2 d ds)
  show ?case
  proof (cases "is_blank d")
    case True
    have "dropWhile is_blank (ds @ c # s) = dropWhile is_blank ds @ c # s"
      using 2(3) by (simp add: dropWhile_append)
    with True 2 show ?thesis by simp
  next
    case False
    with 2 show ?thesis by simp
  qed
qed

lemma takeWhile_append_stop: "\<not> P c \<Longrightarrow> takeWhile P (p @ c # s) = takeWhile P p"
  by (induction p) auto

lemma dropWhile_append_stop: "\<not> P c \<Longrightarrow> dropWhile P (p @ c # s) = dropWhile P p @ c # s"
  by (induction p) auto

lemma collapse_newlines_append:
  "c \<noteq> 0x0A \<Longrightarrow> collapse_newlines (p @ c # s) = collapse_newlines p @ c # collapse_newlines s"
proof (induction p rule: collapse_newlines.induct)
  case 1
  then show ?case by simp
next
  case (2 d ds)
  have t: "takeWhile (\<lambda>d. d = 0x0A) (ds @ c # s) = takeWhile (\<lambda>d. d = 0x0A) ds"
    using 2(3) by (intro takeWhile_append_stop) simp
  have dr: "dropWhile (\<lambda>d. d = 0x0A) (ds @ c # s) = dropWhile (\<lambda>d. d = 0x0A) ds @ c # s"
    using 2(3) by (intro dropWhile_append_stop) simp
  show ?case
  proof (cases "d = 0x0A \<and> 2 \<le> length (takeWhile (\<lambda>d. d = 0x0A) ds)")
    case True
    with 2 t dr show ?thesis by simp
  next
    case False
    with 2 t show ?thesis by auto
  qed
qed

lemma trim_around:
  assumes "m \<noteq> []" and "\<not> is_white_space (hd m)" and "\<not> is_white_space (last m)"
  shows "trim (a @ m @ b) =
         dropWhile is_white_space a @ m @ rev (dropWhile is_white_space (rev b))"
proof -
  obtain c cs where m: "m = c # cs" using assms(1) by (cases m) auto
  obtain d ds where rm: "rev m = d # ds" using assms(1) by (cases "rev m") auto
  have c: "\<not> is_white_space c" using assms(2) m by simp
  have "d = last m" using rm assms(1) by (metis hd_rev list.sel(1))
  then have d: "\<not> is_white_space d" using assms(3) by simp
  have 1: "dropWhile is_white_space (a @ m @ b) = dropWhile is_white_space a @ m @ b"
    unfolding m using c by (simp add: dropWhile_append_stop)
  have "rev (dropWhile is_white_space a @ m @ b) = rev b @ d # (ds @ rev (dropWhile is_white_space a))"
    using rm by simp
  moreover have "dropWhile is_white_space (rev b @ d # (ds @ rev (dropWhile is_white_space a))) =
        dropWhile is_white_space (rev b) @ d # (ds @ rev (dropWhile is_white_space a))"
    using d by (rule dropWhile_append_stop)
  ultimately have "dropWhile is_white_space (rev (dropWhile is_white_space a @ m @ b)) =
        dropWhile is_white_space (rev b) @ d # (ds @ rev (dropWhile is_white_space a))"
    by (simp only:)
  then have "rev (dropWhile is_white_space (rev (dropWhile is_white_space a @ m @ b))) =
        dropWhile is_white_space a @ rev (d # ds) @ rev (dropWhile is_white_space (rev b))"
    by simp
  then show ?thesis unfolding trim_def 1 using rm by (metis rev_rev_ident)
qed

lemma join_nl_snoc: "\<exists>w. join_nl (A @ [u @ m]) = w @ m"
proof (induction A rule: join_nl.induct)
  case 1
  show ?case by simp
next
  case (2 l)
  have "join_nl ([l] @ [u @ m]) = (l @ 0x0A # u) @ m" by simp
  then show ?case by blast
next
  case (3 l k ks)
  then obtain w where "join_nl ((k # ks) @ [u @ m]) = w @ m" by blast
  then have "join_nl ((l # k # ks) @ [u @ m]) = (l @ 0x0A # w) @ m" by simp
  then show ?case by blast
qed

lemma join_nl_Cons_ex: "\<exists>w. join_nl ((m @ v) # B) = m @ w"
  by (cases B) auto

lemma join_nl_append:
  "xs \<noteq> [] \<Longrightarrow> ys \<noteq> [] \<Longrightarrow> join_nl (xs @ ys) = join_nl xs @ 0x0A # join_nl ys"
proof (induction xs rule: join_nl.induct)
  case 1
  then show ?case by simp
next
  case (2 l)
  then show ?case by (cases ys) auto
next
  case (3 l k ks)
  then show ?case by simp
qed

lemma clean_chain_keeps_sample:
  "\<exists>u v. clean_chain (p @ js ''a   b\<newline>\<newline>\<newline>\<newline>c'' @ q) = u @ js ''a b\<newline>\<newline>c'' @ v"
proof -
  let ?P = "collapse_newlines (collapse_blanks p)"
  let ?Q = "collapse_newlines (collapse_blanks q)"
  let ?x = "p @ js ''a   b\<newline>\<newline>\<newline>\<newline>c'' @ q"
  have x: "?x = p @ 97 # ([32, 32, 32, 98, 10, 10, 10, 10, 99] @ q)"
    by (simp add: js_def)
  have "collapse_blanks ?x = collapse_blanks p @ 97 # collapse_blanks ([32, 32, 32, 98, 10, 10, 10, 10, 99] @ q)"
    unfolding x by (rule collapse_blanks_append) (simp add: is_blank_def)
  also have "collapse_blanks ([32, 32, 32, 98, 10, 10, 10, 10, 99] @ q) = [32, 98, 10, 10, 10, 10] @ 99 # collapse_blanks q"
    by (simp add: is_blank_def)
  finally have cb: "collapse_blanks ?x = collapse_blanks p @ 97 # ([32, 98, 10, 10, 10, 10] @ 99 # collapse_blanks q)"
    by simp
  have "collapse_newlines (collapse_blanks ?x) = ?P @ 97 # collapse_newlines ([32, 98, 10, 10, 10, 10] @ 99 # collapse_blanks q)"
    unfolding cb by (rule collapse_newlines_append) simp
  also have "collapse_newlines ([32, 98, 10, 10, 10, 10] @ 99 # collapse_blanks q) = [32, 98, 10, 10] @ 99 # ?Q"
    by simp
  finally have z: "collapse_newlines (collapse_blanks ?x) = (?P @ [97, 32, 98]) @ 10 # ([] @ 10 # (99 # ?Q))"
    by simp
  obtain h t where sq: "split_nl ?Q = h # t" by (cases "split_nl ?Q") auto
  have "split_nl (collapse_newlines (collapse_blanks ?x)) =
        split_nl (?P @ [97, 32, 98]) @ split_nl [] @ split_nl (99 # ?Q)"
    unfolding z by (simp only: split_nl_append_LF)
  also have "split_nl (?P @ [97, 32, 98]) = butlast (split_nl ?P) @ [last (split_nl ?P) @ [97, 32, 98]]"
    by (rule split_nl_append_LF_free) simp
  also have "split_nl (99 # ?Q) = (99 # h) # t" using sq by simp
  finally have sp: "split_nl (collapse_newlines (collapse_blanks ?x)) =
        (butlast (split_nl ?P) @ [last (split_nl ?P) @ [97, 32, 98]]) @ ([] # (99 # h) # t)"
    by simp
  have t1: "trim (last (split_nl ?P) @ [97, 32, 98]) =
        dropWhile is_white_space (last (split_nl ?P)) @ [97, 32, 98]"
    using trim_around [of "[97, 32, 98]" "last (split_nl ?P)" "[]"]
    by (simp add: is_white_space_def)
  have t2: "trim (99 # h) = [99] @ rev (dropWhile is_white_space (rev h))"
    using trim_around [of "[99]" "[]" h]
    by (simp add: is_white_space_def)
  obtain w where w: "join_nl (map trim (butlast (split_nl ?P)) @
        [dropWhile is_white_space (last (split_nl ?P)) @ [97, 32, 98]]) = w @ [97, 32, 98]"
    using join_nl_snoc by blast
  obtain w' where w': "join_nl (([99] @ rev (dropWhile is_white_space (rev h))) # map trim t) = [99] @ w'"
    using join_nl_Cons_ex by blast
  have "join_nl (map trim (split_nl (collapse_newlines (collapse_blanks ?x)))) =
        join_nl ((map trim (butlast (split_nl ?P)) @
                  [dropWhile is_white_space (last (split_nl ?P)) @ [97, 32, 98]]) @
                 ([] # ([99] @ rev (dropWhile is_white_space (rev h))) # map trim t))"
    unfolding sp by (simp add: t1 t2)
  also have "\<dots> = (w @ [97, 32, 98]) @ 10 # join_nl ([] # ([99] @ rev (dropWhile is_white_space (rev h))) # map trim t)"
    by (subst join_nl_append) (simp_all add: w)
  also have "\<dots> = w @ [97, 32, 98, 10, 10, 99] @ w'"
    using w' by simp
  finally have J: "join_nl (map trim (split_nl (collapse_newlines (collapse_blanks ?x)))) =
        w @ [97, 32, 98, 10, 10, 99] @ w'" .
  have "trim (w @ [97, 32, 98, 10, 10, 99] @ w') =
        dropWhile is_white_space w @ [97, 32, 98, 10, 10, 99] @ rev (dropWhile is_white_space (rev w'))"
    by (rule trim_around) (simp_all add: is_white_space_def)
  moreover have "js ''a b\<newline>\<newline>c'' = [97, 32, 98, 10, 10, 99]" by (simp add: js_def)
  ultimately have "clean_chain ?x =
        dropWhile is_white_space w @ js ''a b\<newline>\<newline>c'' @ rev (dropWhile is_white_space (rev w'))"
    by (simp only: clean_chain_def J)
  then show ?thesis by blast
qed

text \<open>The rule of each collapsing pass, run by run.\<close>

lemma collapse_blanks_no_blank: "\<forall>c\<in>set s. \<not> is_blank c \<Longrightarrow> collapse_blanks s = s"
  by (induction s) auto

lemma collapse_blanks_split:
  assumes "p = [] \<or> \<not> is_blank (last p)"
  shows "collapse_blanks (p @ s) = collapse_blanks p @ collapse_blanks s"
proof (cases p rule: rev_cases)
  case Nil
  then show ?thesis by simp
next
  case (snoc p' c)
  with assms have c: "\<not> is_blank c" by simp
  have "collapse_blanks (p' @ c # s) = collapse_blanks p' @ c # collapse_blanks s"
    using c by (rule collapse_blanks_append)
  moreover have "collapse_blanks (p' @ c # []) = collapse_blanks p' @ c # collapse_blanks []"
    using c by (rule collapse_blanks_append)
  ultimately show ?thesis using snoc by simp
qed

lemma collapse_blanks_run:
  assumes "r \<noteq> []" and "\<forall>c\<in>set r. is_blank c" and "q = [] \<or> \<not> is_blank (hd q)"
  shows "collapse_blanks (r @ q) = 0x20 # collapse_blanks q"
proof -
  obtain c cs where r: "r = c # cs" using assms(1) by (cases r) auto
  have "dropWhile is_blank (cs @ q) = dropWhile is_blank q"
    using assms(2) r by (intro dropWhile_append2) auto
  also have "\<dots> = q" using assms(3) by (cases q) auto
  finally show ?thesis using r assms(2) by simp
qed

lemma collapse_blanks_rule:
  assumes "r \<noteq> []" and "\<forall>c\<in>set r. is_blank c"
    and "p = [] \<or> \<not> is_blank (last p)" and "q = [] \<or> \<not> is_blank (hd q)"
  shows "collapse_blanks (p @ r @ q) = collapse_blanks p @ 0x20 # collapse_blanks q"
  using collapse_blanks_split [OF assms(3), of "r @ q"] collapse_blanks_run [OF assms(1,2,4)]
  by simp

lemma collapse_newlines_no_LF: "0x0A \<notin> set s \<Longrightarrow> collapse_newlines s = s"
  by (induction s) auto

lemma collapse_newlines_split:
  assumes "p = [] \<or> last p \<noteq> 0x0A"
  shows "collapse_newlines (p @ s) = collapse_newlines p @ collapse_newlines s"
proof (cases p rule: rev_cases)
  case Nil
  then show ?thesis by simp
next
  case (snoc p' c)
  with assms have c: "c \<noteq> 0x0A" by simp
  have "collapse_newlines (p' @ c # s) = collapse_newlines p' @ c # collapse_newlines s"
    using c by (rule collapse_newlines_append)
  moreover have "collapse_newlines (p' @ c # []) = collapse_newlines p' @ c # collapse_newlines []"
    using c by (rule collapse_newlines_append)
  ultimately show ?thesis using snoc by simp
qed

lemma takeWhile_replicate_LF:
  assumes "q = [] \<or> hd q \<noteq> (0x0A::jschar)"
  shows "takeWhile (\<lambda>d. d = 0x0A) (replicate n 0x0A @ q) = replicate n 0x0A"
    and "dropWhile (\<lambda>d. d = 0x0A) (replicate n 0x0A @ q) = q"
  using assms by (induction n) (cases q; auto)+

lemma collapse_newlines_run:
  assumes "q = [] \<or> hd q \<noteq> 0x0A"
  shows "collapse_newlines (replicate n 0x0A @ q) =
         replicate (if 3 \<le> n then 2 else n) 0x0A @ collapse_newlines q"
proof -
  have one: "collapse_newlines (0x0A # q) = 0x0A # collapse_newlines q"
    using assms by (cases q) auto
  consider "n = 0" | "n = 1" | "n = 2" | "3 \<le> n" by linarith
  then show ?thesis
  proof cases
    case 1
    then show ?thesis by simp
  next
    case 2
    then show ?thesis using one by simp
  next
    case 3
    have "takeWhile (\<lambda>d. d = 0x0A) (0x0A # q) = [0x0A]" using assms by (cases q) auto
    then have "collapse_newlines (0x0A # 0x0A # q) = 0x0A # collapse_newlines (0x0A # q)"
      by simp
    with 3 one show ?thesis by (simp add: numeral_2_eq_2)
  next
    case 4
    then obtain m where n: "n = Suc m" and m: "2 \<le> m" by (cases n) auto
    have "collapse_newlines (0x0A # (replicate m 0x0A @ q)) = 0x0A # 0x0A # collapse_newlines q"
      using m takeWhile_replicate_LF [OF assms, of m] by simp
    with 4 n show ?thesis by (simp add: numeral_2_eq_2)
  qed
qed

lemma collapse_newlines_rule:
  assumes "p = [] \<or> last p \<noteq> 0x0A" and "q = [] \<or> hd q \<noteq> 0x0A"
  shows "collapse_newlines (p @ replicate n 0x0A @ q) =
         collapse_newlines p @ replicate (if 3 \<le> n then 2 else n) 0x0A @ collapse_newlines q"
  using collapse_newlines_split [OF assms(1), of "replicate n 0x0A @ q"]
    collapse_newlines_run [OF assms(2), of n]
  by simp

section \<open>Reading the size limit\<close>

lemma digit_char_cases:
  "d < 10 \<Longrightarrow> d = 0 \<or> d = 1 \<or> d = 2 \<or> d = 3 \<or> d = 4 \<or> d = 5 \<or> d = 6 \<or> d = 7 \<or> d = 8 \<or> d = (9::nat)"
  by arith

lemma digit_char_not_white_space: "d < 10 \<Longrightarrow> \<not> is_white_space (digit_char d)"
  by (drule digit_char_cases) (elim disjE; simp add: is_white_space_def digit_char_def)

lemma digit_char_not_sign:
  "d < 10 \<Longrightarrow> digit_char d \<noteq> 0x2B \<and> digit_char d \<noteq> 0x2D \<and> digit_char d \<noteq> 0x78 \<and> digit_char d \<noteq> 0x58"
  by (drule digit_char_cases) (elim disjE; simp add: digit_char_def)

lemma digit_of_digit_char: "d < 10 \<Longrightarrow> digit_of (digit_char d) = Some d"
  by (drule digit_char_cases) (elim disjE; simp add: digit_of_def digit_char_def)

lemma is_digit_digit_char: "d < 10 \<Longrightarrow> is_digit 10 (digit_char d)"
  by (simp add: is_digit_def digit_of_digit_char)

lemma digit_char_props:
  "d < 10 \<Longrightarrow> \<not> is_white_space (digit_char d) \<and> digit_char d \<noteq> 0x2B \<and> digit_char d \<noteq> 0x2D \<and>
     digit_char d \<noteq> 0x78 \<and> digit_char d \<noteq> 0x58 \<and> is_digit 10 (digit_char d)"
  using digit_char_not_white_space digit_char_not_sign is_digit_digit_char by blast

lemma decimal_digits: "\<forall>c\<in>set (decimal n). dec_digit c"
proof (induction n rule: decimal.induct)
  case (1 n)
  show ?case
  proof (cases "n < 10")
    case True
    then show ?thesis by (subst decimal.simps) (auto simp: dec_digit_def)
  next
    case False
    have "dec_digit (digit_char (n mod 10))"
      unfolding dec_digit_def by (intro exI [of _ "n mod 10"]) simp
    with False 1 show ?thesis by (subst decimal.simps) auto
  qed
qed

lemma decimal_not_Nil: "decimal n \<noteq> []"
  by (subst decimal.simps) simp

lemma decimal_value:
  "foldl (\<lambda>a c. a * 10 + (case digit_of c of None \<Rightarrow> 0 | Some d \<Rightarrow> d)) 0 (decimal n) = n"
proof (induction n rule: decimal.induct)
  case (1 n)
  show ?case
  proof (cases "n < 10")
    case True
    then show ?thesis by (subst decimal.simps) (simp add: digit_of_digit_char)
  next
    case False
    have "n mod 10 < 10" by simp
    then have "digit_of (digit_char (n mod 10)) = Some (n mod 10)" by (rule digit_of_digit_char)
    with False 1 show ?thesis by (subst decimal.simps) simp
  qed
qed

lemma parseInt_digits:
  assumes "s \<noteq> []" and "\<forall>c\<in>set s. dec_digit c"
  shows "parseInt (Some s) =
     Some (int (foldl (\<lambda>a c. a * 10 + (case digit_of c of None \<Rightarrow> 0 | Some d \<Rightarrow> d)) 0 s))"
proof -
  obtain c cs where s: "s = c # cs" using assms(1) by (cases s) auto
  have p: "\<not> is_white_space x \<and> x \<noteq> 0x2B \<and> x \<noteq> 0x2D \<and> x \<noteq> 0x78 \<and> x \<noteq> 0x58 \<and> is_digit 10 x"
    if "x \<in> set s" for x
    using that assms(2) digit_char_props by (auto simp: dec_digit_def)
  have 1: "dropWhile is_white_space s = s" using p s by simp
  have 2: "\<not> startsWith s (js ''0x'')" "\<not> startsWith s (js ''0X'')"
    using p s by (cases cs; auto simp: startsWith_def js_def)+
  have 3: "takeWhile (is_digit 10) s = s" using p by (simp add: takeWhile_eq_all_conv)
  have 4: "hd s \<noteq> 0x2B" "hd s \<noteq> 0x2D" using p s by auto
  have 5: "takeWhile (is_digit 10) s \<noteq> []" using 3 assms(1) by metis
  show ?thesis
    unfolding parseInt_def Let_def option.case 1
    using assms(1) 2 4 5 by (simp add: 3)
qed

lemma parseInt_decimal: "parseInt (Some (decimal n)) = Some (int n)"
  using parseInt_digits [OF decimal_not_Nil decimal_digits, of n] by (simp add: decimal_value)


lemma fileSizeLimit_zero: "fileSizeLimit (Some (decimal 0)) = 10 * 1024 * 1024"
  by (simp add: fileSizeLimit_def parseInt_decimal)


section \<open>The orchestrator, step by step\<close>

lemmas io_defs = bind_io_def return_io_def throw_io_def try_catch_def emit_def lift_result_def

lemma cleanupFile_eq:
  "cleanupFile p w =
     (Inr (),
      if files w p = None then w\<lparr>trace := trace w @ [ExistsSync p]\<rparr>
      else case unlink_failure w p of
             Some e \<Rightarrow> w\<lparr>trace := trace w @
                 [ExistsSync p, UnlinkSync p, ConsoleError (js ''File cleanup error:'') e]\<rparr>
           | None \<Rightarrow> w\<lparr>files := (files w)(p := None),
                        trace := trace w @ [ExistsSync p, UnlinkSync p, ConsoleLog CleanedUp]\<rparr>)"
  by (auto simp: cleanupFile_def io_defs existsSync_def unlinkSync_def Let_def
      split: option.splits)

lemma fst_cleanupFile [simp]: "fst (cleanupFile p w) = Inr ()"
  by (simp add: cleanupFile_eq)

lemma extractFromFile_eq:
  "extractFromFile ev file w =
     (case extractor_for ev file w of
        (Inl (Thrown e), w1) \<Rightarrow> (Inl (Thrown e), snd (cleanupFile (path file) w1))
      | (Inl (Uncaught u), w1) \<Rightarrow> (Inl (Uncaught u), w1)
      | (Inr c, w1) \<Rightarrow>
          (map_sum Thrown id (cleanContent (VString c)), snd (cleanupFile (path file) w1)))"
proof -
  obtain r w1 where m: "extractor_for ev file w = (r, w1)" by (cases "extractor_for ev file w")
  obtain w2 where c: "cleanupFile (path file) w1 = (Inr (), w2)"
    by (simp add: cleanupFile_eq)
  have d: "extractFromFile ev file =
        try_catch
          (bind_io (extractor_for ev file)
             (\<lambda>content. bind_io (cleanupFile (path file))
                (\<lambda>_. lift_result (cleanContent (VString content)))))
          (\<lambda>error. bind_io (cleanupFile (path file)) (\<lambda>_. throw_io error))"
    by (simp add: extractFromFile_def extractor_for_def Let_def)
  show ?thesis
  proof (cases r)
    case (Inl a)
    with m c d show ?thesis by (cases a) (simp_all add: io_defs)
  next
    case (Inr x)
    with m c d show ?thesis by (simp add: io_defs cleanContent_VString)
  qed
qed

lemma fst_extractFromFile:
  "fst (extractFromFile ev file w) =
     (case fst (extractor_for ev file w) of
        Inl a \<Rightarrow> Inl a
      | Inr c \<Rightarrow> map_sum Thrown id (cleanContent (VString c)))"
  by (auto simp: extractFromFile_eq split: prod.splits sum.splits abrupt.splits)

lemma returns_or_raises_extractFromFile:
  "returns_or_raises (fst (extractFromFile ev file w)) =
   returns_or_raises (fst (extractor_for ev file w))"
  by (auto simp: fst_extractFromFile cleanContent_VString split: sum.splits abrupt.splits)

lemma snd_extractFromFile:
  "snd (extractFromFile ev file w) =
     (if returns_or_raises (fst (extractor_for ev file w))
      then snd (cleanupFile (path file) (snd (extractor_for ev file w)))
      else snd (extractor_for ev file w))"
  by (auto simp: extractFromFile_eq split: prod.splits sum.splits abrupt.splits)

text \<open>What each extractor does, case by case.\<close>

lemma extractFromPDF_eq:
  "extractFromPDF ev p w =
     (let w1 = w\<lparr>trace := trace w @ [ReadFileSync p]\<rparr>;
          failed = (\<lambda>e. (Inl (Thrown (new_Error (js ''Failed to extract text from PDF: '' @ message e))),
                         w\<lparr>trace := trace w @
                            [ReadFileSync p, ConsoleError (js ''PDF extraction error:'') e]\<rparr>))
      in case read_failure w p of
           Some e \<Rightarrow> failed e
         | None \<Rightarrow>
             (case files w p of
                None \<Rightarrow> failed (enoent ''open'' p)
              | Some b \<Rightarrow>
                  (case pdfParse ev b of
                     Inl e \<Rightarrow> failed e
                   | Inr data \<Rightarrow>
                       (Inr (pdf_text data),
                        w\<lparr>trace := trace w @
                           [ReadFileSync p,
                            ConsoleLog (PdfExtracted (numpages data) (length (pdf_text data)))]\<rparr>))))"
  by (simp add: extractFromPDF_def io_defs readFileSync_def Let_def
      split: option.splits sum.splits)

lemma extractFromText_eq:
  "extractFromText ev p w =
     (let failed = (\<lambda>e. (Inl (Thrown (new_Error (js ''Failed to read text file: '' @ message e))),
                         w\<lparr>trace := trace w @
                            [ReadFileSync p, ConsoleError (js ''Text file read error:'') e]\<rparr>))
      in case read_failure w p of
           Some e \<Rightarrow> failed e
         | None \<Rightarrow>
             (case files w p of
                None \<Rightarrow> failed (enoent ''open'' p)
              | Some b \<Rightarrow>
                  (Inr (utf8_decode ev b),
                   w\<lparr>trace := trace w @
                      [ReadFileSync p, ConsoleLog (TextFileRead (length (utf8_decode ev b)))]\<rparr>)))"
  by (simp add: extractFromText_def io_defs readFileSync_def Let_def
      split: option.splits sum.splits)

text \<open>The image extractor returns or ends the process; its \<open>catch\<close> block is never entered.\<close>

lemma extractFromImage_eq:
  "extractFromImage ev p w =
     (case recognize ev (files w p) of
        OcrText t \<Rightarrow>
          (Inr t, w\<lparr>trace := trace w @
             [ConsoleLog RunningOcr, Recognize p, ConsoleLog (OcrComplete (length t))]\<rparr>)
      | OcrFailure d \<Rightarrow>
          (Inl (Uncaught (new_Error d)),
           w\<lparr>trace := trace w @ [ConsoleLog RunningOcr, Recognize p]\<rparr>))"
  by (simp add: extractFromImage_def tesseract_recognize_def io_defs split: ocr_result.splits)

lemmas extractor_eqs = extractFromPDF_eq extractFromImage_eq extractFromText_eq

lemma extractFromPDF_frame: "extractor_frame w (snd (extractFromPDF ev p w))"
  unfolding extractor_frame_def
  by (auto simp: extractFromPDF_eq Let_def split: option.splits sum.splits intro!: exI)

lemma extractFromImage_frame: "extractor_frame w (snd (extractFromImage ev p w))"
  unfolding extractor_frame_def
  by (auto simp: extractFromImage_eq split: ocr_result.splits intro!: exI)

lemma extractFromText_frame: "extractor_frame w (snd (extractFromText ev p w))"
  unfolding extractor_frame_def
  by (auto simp: extractFromText_eq Let_def split: option.splits intro!: exI)

lemma extractor_frame_refl: "extractor_frame w w"
  unfolding extractor_frame_def by (intro exI [of _ "[]"]) simp

lemma extractor_for_frame: "extractor_frame w (snd (extractor_for ev file w))"
  by (simp add: extractor_for_def extractFromPDF_frame extractFromImage_frame
      extractFromText_frame extractor_frame_refl throw_io_def)

text \<open>What every error that an extractor throws looks like.\<close>

lemma extractFromPDF_error:
  "fst (extractFromPDF ev p w) = Inl (Thrown e) \<Longrightarrow>
   \<exists>m. e = new_Error (js ''Failed to extract text from PDF: '' @ m)"
  by (auto simp: extractFromPDF_eq Let_def split: option.splits sum.splits)

lemma extractFromPDF_returns_or_raises: "returns_or_raises (fst (extractFromPDF ev p w))"
  by (auto simp: extractFromPDF_eq Let_def split: option.splits sum.splits)

lemma extractFromImage_error: "fst (extractFromImage ev p w) \<noteq> Inl (Thrown e)"
  by (simp add: extractFromImage_eq split: ocr_result.splits)

lemma extractFromText_error:
  "fst (extractFromText ev p w) = Inl (Thrown e) \<Longrightarrow>
   \<exists>m. e = new_Error (js ''Failed to read text file: '' @ m)"
  by (auto simp: extractFromText_eq Let_def split: option.splits)

lemma extractFromText_returns_or_raises: "returns_or_raises (fst (extractFromText ev p w))"
  by (auto simp: extractFromText_eq Let_def split: option.splits)

lemma extractor_for_error:
  assumes "fst (extractor_for ev file w) = Inl (Thrown e)"
  shows "status e = None \<and> message e \<noteq> []"
proof -
  consider (pdf) "fst (extractFromPDF ev (path file) w) = Inl (Thrown e)"
    | (img) "fst (extractFromImage ev (path file) w) = Inl (Thrown e)"
    | (plain) "fst (extractFromText ev (path file) w) = Inl (Thrown e)"
    | (uns) "e = new_Error (js ''Unsupported file type: '' @ mimetype file)"
    using assms by (auto simp: extractor_for_def throw_io_def split: if_splits)
  then show ?thesis
  proof cases
    case pdf
    then show ?thesis by (auto dest!: extractFromPDF_error simp: new_Error_def js_def)
  next
    case img
    then show ?thesis by (simp add: extractFromImage_error)
  next
    case plain
    then show ?thesis by (auto dest!: extractFromText_error simp: new_Error_def js_def)
  next
    case uns
    then show ?thesis by (simp add: new_Error_def js_def)
  qed
qed

text \<open>The outcome of an extractor does not depend on which deletions would fail.\<close>

lemma fst_extractor_for_unlink_failure:
  "fst (extractor_for ev file (w\<lparr>unlink_failure := uf\<rparr>)) = fst (extractor_for ev file w)"
  by (auto simp: extractor_for_def extractor_eqs throw_io_def Let_def
      split: option.splits sum.splits ocr_result.splits)

lemma fst_extractor_for_trace:
  "fst (extractor_for ev file (w\<lparr>trace := t\<rparr>)) = fst (extractor_for ev file w)"
  by (auto simp: extractor_for_def extractor_eqs throw_io_def Let_def
      split: option.splits sum.splits ocr_result.splits)

lemma new_events_frame:
  "extractor_frame w w1 \<Longrightarrow> \<exists>t. trace w1 = trace w @ t \<and> (\<forall>e\<in>set t. \<not> is_cleanup_event e) \<and>
     files w1 = files w \<and> unlink_failure w1 = unlink_failure w"
  by (auto simp: extractor_frame_def)

lemma count_list_0: "(\<forall>e\<in>set t. e \<noteq> x) \<Longrightarrow> count_list t x = 0"
  by (induction t) auto

lemma count_list_append: "count_list (xs @ ys) x = count_list xs x + count_list ys x"
  by (induction xs) auto

lemma extractFromFile_cleanup:
  assumes p: "p = path file" and w': "w' = snd (extractFromFile ev file w)"
    and r: "returns_or_raises (fst (extractFromFile ev file w))"
  shows "trace w' = trace w @ new_events w w' \<and>
     count_list (new_events w w') (ExistsSync p) = 1 \<and>
     count_list (new_events w w') (UnlinkSync p) = (if files w p = None then 0 else 1) \<and>
     (\<forall>q. q \<noteq> p \<longrightarrow> UnlinkSync q \<notin> set (new_events w w')) \<and>
     (unlink_failure w p = None \<longrightarrow> files w' p = None) \<and>
     (unlink_failure w p \<noteq> None \<longrightarrow> files w' p = files w p) \<and>
     (\<forall>q. q \<noteq> p \<longrightarrow> files w' q = files w q)"
proof -
  let ?w1 = "snd (extractor_for ev file w)"
  obtain t where t: "trace ?w1 = trace w @ t" "\<forall>e\<in>set t. \<not> is_cleanup_event e"
      "files ?w1 = files w" "unlink_failure ?w1 = unlink_failure w"
    using new_events_frame [OF extractor_for_frame [of w ev "file"]] by blast
  have "returns_or_raises (fst (extractor_for ev file w))"
    using r by (simp add: returns_or_raises_extractFromFile)
  then have w2: "w' = snd (cleanupFile p ?w1)"
    by (simp add: w' p snd_extractFromFile)
  from t(2) have c1: "count_list t (ExistsSync p) = 0" "count_list t (UnlinkSync q) = 0" for q
    by (auto intro!: count_list_0)
  from t(2) have nu: "UnlinkSync q \<notin> set t" for q by auto
  show ?thesis
  proof (cases "files w p")
    case None
    then have "w' = ?w1\<lparr>trace := trace w @ t @ [ExistsSync p]\<rparr>"
      using t by (simp add: w2 cleanupFile_eq)
    then show ?thesis using None t c1 nu
      by (simp add: new_events_def count_list_append)
  next
    case (Some b)
    show ?thesis
    proof (cases "unlink_failure w p")
      case None
      then have "w' = ?w1\<lparr>files := (files w)(p := None),
          trace := trace w @ t @ [ExistsSync p, UnlinkSync p, ConsoleLog CleanedUp]\<rparr>"
        using t Some by (simp add: w2 cleanupFile_eq)
      then show ?thesis using None Some t c1 nu
        by (simp add: new_events_def count_list_append)
    next
      case (Some e)
      then have "w' = ?w1\<lparr>trace := trace w @ t @
          [ExistsSync p, UnlinkSync p, ConsoleError (js ''File cleanup error:'') e]\<rparr>"
        using t \<open>files w p = Some b\<close> by (simp add: w2 cleanupFile_eq)
      then show ?thesis using Some \<open>files w p = Some b\<close> t c1 nu
        by (simp add: new_events_def count_list_append)
    qed
  qed
qed

lemmas run_defs = extractFromFile_def extractFromPDF_def extractFromImage_def
  tesseract_recognize_def extractFromText_def cleanupFile_def io_defs readFileSync_def
  existsSync_def unlinkSync_def Let_def startsWith_def sample_env_def sample_file_def
  sample_world_def ascii_bytes_def eperm_def new_Error_def

lemma extractFromFile_throws:
  "fst (extractFromFile ev file w) = Inl (Thrown e) \<longleftrightarrow>
   fst (extractor_for ev file w) = Inl (Thrown e)"
  by (auto simp: fst_extractFromFile cleanContent_VString split: sum.splits)

lemma pdf_not_image: "\<not> startsWith (js ''application/pdf'') (js ''image/'')"
  by (simp add: startsWith_def js_def)

lemma plain_not_image: "\<not> startsWith (js ''text/plain'') (js ''image/'')"
  by (simp add: startsWith_def js_def)

lemma plain_not_pdf: "js ''text/plain'' \<noteq> js ''application/pdf''"
  by (simp add: js_def)

lemma cleanupFile_no_read:
  "\<forall>e\<in>set (new_events w (snd (cleanupFile p w))). \<not> is_read_event e"
  by (auto simp: cleanupFile_eq new_events_def split: option.splits)

lemma extractFromText_reads:
  "files w p = Some b \<Longrightarrow> read_failure w p = None \<Longrightarrow>
   fst (extractFromText ev p w) = Inr (utf8_decode ev b)"
  by (simp add: extractFromText_eq)

lemmas eval_defs = run_defs js_def cleanContent_def clean_chain_def trim_def is_blank_def
  is_white_space_def



lemma error_middleware_eq:
  "error_middleware err w =
     (Inr \<lparr>status_code = (case status err of None \<Rightarrow> 500 | Some s \<Rightarrow> if s = 0 then 500 else s),
           body = error_envelope
                    (if message err = [] then js ''Internal server error'' else message err)\<rparr>,
      w\<lparr>trace := trace w @ [ConsoleError (js ''Error:'') err]\<rparr>)"
  by (simp add: error_middleware_def io_defs)



lemma fst_extractFromFile_trace:
  "fst (extractFromFile ev file (w\<lparr>trace := t\<rparr>)) = fst (extractFromFile ev file w)"
  by (simp add: fst_extractFromFile fst_extractor_for_trace)

text \<open>
  What the handler answers: a thrown error becomes the envelope with status 500, a
  text becomes the success response, and where the process ends there is no answer.
\<close>

lemma fst_post_file:
  "fst (post_file ev (Some file) w) =
     (case fst (extractFromFile ev file w) of
        Inl (Thrown e) \<Rightarrow> Inr \<lparr>status_code = 500, body = error_envelope (message e)\<rparr>
      | Inl (Uncaught u) \<Rightarrow> Inl (Uncaught u)
      | Inr c \<Rightarrow> Inr (success_response file c))"
proof -
  let ?w1 = "w\<lparr>trace := trace w @ [ConsoleLog (ProcessingFile (originalname file))]\<rparr>"
  obtain r w2 where x: "extractFromFile ev file ?w1 = (r, w2)"
    by (cases "extractFromFile ev file ?w1")
  have r: "fst (extractFromFile ev file w) = r"
    using x by (metis fst_conv fst_extractFromFile_trace)
  show ?thesis
  proof (cases r)
    case (Inl a)
    show ?thesis
    proof (cases a)
      case (Thrown e)
      with Inl r have "fst (extractor_for ev file w) = Inl (Thrown e)"
        by (simp add: extractFromFile_throws)
      then have "status e = None \<and> message e \<noteq> []" by (rule extractor_for_error)
      with Inl Thrown x r show ?thesis
        by (simp add: post_file_def io_defs error_middleware_eq)
    next
      case (Uncaught u)
      with Inl x r show ?thesis by (simp add: post_file_def io_defs)
    qed
  next
    case (Inr c)
    with x r show ?thesis
      by (simp add: post_file_def io_defs)
  qed
qed

section \<open>Properties of the normalizer\<close>




text \<open>
  C10. For every input string the normalizer has an output, and every output of the
  normalizer, whatever the input, contains no tab and no two consecutive spaces, no
  line of it begins or ends with a space or a tab, and the output as a whole neither
  begins nor ends with white space.
\<close>

theorem cleanContent_output_shape:
  "(\<exists>y. cleanContent (VString s) = Inr y) \<and>
   (cleanContent v = Inr y \<longrightarrow>
      0x09 \<notin> set y \<and>
      \<not> sublist [0x20, 0x20] y \<and>
      (\<forall>l\<in>set (split_nl y). l \<noteq> [] \<longrightarrow> \<not> is_blank (hd l) \<and> \<not> is_blank (last l)) \<and>
      (y \<noteq> [] \<longrightarrow> \<not> is_white_space (hd y) \<and> \<not> is_white_space (last y)))"
proof (intro conjI impI)
  show "\<exists>y. cleanContent (VString s) = Inr y" by (simp add: cleanContent_VString)
next
  assume "cleanContent v = Inr y"
  then have nf: "normal_form y" by (rule normal_form_cleanContent)
  then have "single_spaced y" by (simp add: normal_form_def)
  then show "0x09 \<notin> set y" and "\<not> sublist [0x20, 0x20] y"
    using single_spaced_iff [of y] by blast+
  show "\<forall>l\<in>set (split_nl y). l \<noteq> [] \<longrightarrow> \<not> is_blank (hd l) \<and> \<not> is_blank (last l)"
  proof
    fix l
    assume "l \<in> set (split_nl y)"
    with nf have "trimmed l" by (simp add: normal_form_def lines_trimmed_def)
    then show "l \<noteq> [] \<longrightarrow> \<not> is_blank (hd l) \<and> \<not> is_blank (last l)"
      by (auto simp: trimmed_def dest: is_blank_white_space)
  qed
  assume "y \<noteq> []"
  with nf show "\<not> is_white_space (hd y)" and "\<not> is_white_space (last y)"
    by (auto simp: normal_form_def trimmed_def)
qed

theorem cleanContent_output_shape_witness:
  "cleanContent (VString (js '' x '' @ 0x09 # js ''  y  \<newline> '' @ 0x09 # js ''z '')) =
     Inr (js ''x y\<newline>z'') \<and>
   0x09 \<notin> set (js ''x y\<newline>z'') \<and> \<not> sublist [0x20, 0x20] (js ''x y\<newline>z'') \<and>
   set (split_nl (js ''x y\<newline>z'')) = {js ''x y'', js ''z''} \<and>
   \<not> is_blank (hd (js ''x y'')) \<and> \<not> is_blank (last (js ''x y'')) \<and>
   \<not> is_white_space (hd (js ''x y\<newline>z'')) \<and> \<not> is_white_space (last (js ''x y\<newline>z''))"
proof -
  have e: "cleanContent (VString (js '' x '' @ 0x09 # js ''  y  \<newline> '' @ 0x09 # js ''z '')) =
      Inr (js ''x y\<newline>z'')"
    by (simp add: cleanContent_def clean_chain_def js_def trim_def is_blank_def is_white_space_def)
  have s: "set (split_nl (js ''x y\<newline>z'')) = {js ''x y'', js ''z''}"
    by (simp add: js_def)
  have n: "js ''x y\<newline>z'' \<noteq> []" "js ''x y'' \<noteq> []" by (simp_all add: js_def)
  from cleanContent_output_shape
    [of "js ''z''" "VString (js '' x '' @ 0x09 # js ''  y  \<newline> '' @ 0x09 # js ''z '')" "js ''x y\<newline>z''"]
    e s n
  show ?thesis by simp
qed

text \<open>
  C1. The code is not idempotent. The pass that collapses line feeds runs before the
  lines are trimmed, so a line that holds only white space (a space, or the carriage
  return of a CRLF line end) becomes empty after it, and the output keeps three line
  feeds in a row, which the pass was written to remove; a second application removes
  them and so changes the output.
\<close>

theorem cleanContent_not_idempotent:
  "cleanContent (VString (js ''a\<newline> \<newline>\<newline>b'')) = Inr (js ''a\<newline>\<newline>\<newline>b'') \<and>
   cleanContent (VString (js ''a\<newline>\<newline>\<newline>b'')) = Inr (js ''a\<newline>\<newline>b'') \<and>
   js ''a\<newline>\<newline>\<newline>b'' \<noteq> js ''a\<newline>\<newline>b'' \<and>
   cleanContent (VString (js ''a'' @ [0x0D, 0x0A, 0x0D, 0x0A, 0x0D, 0x0A] @ js ''b'')) =
     Inr (js ''a\<newline>\<newline>\<newline>b'')"
  by (simp add: cleanContent_def clean_chain_def js_def trim_def is_blank_def is_white_space_def)

text \<open>
  C5, as claimed, fails: an input that contains the sample and one more character is
  not normalized to the normalized sample alone.
\<close>

theorem cleanContent_sample_counterexample:
  "sublist (js ''a   b\<newline>\<newline>\<newline>\<newline>c'') (js ''za   b\<newline>\<newline>\<newline>\<newline>c'') \<and>
   cleanContent (VString (js ''za   b\<newline>\<newline>\<newline>\<newline>c'')) = Inr (js ''za b\<newline>\<newline>c'') \<and>
   cleanContent (VString (js ''za   b\<newline>\<newline>\<newline>\<newline>c'')) \<noteq> Inr (js ''a b\<newline>\<newline>c'')"
proof -
  have "js ''za   b\<newline>\<newline>\<newline>\<newline>c'' = js ''z'' @ js ''a   b\<newline>\<newline>\<newline>\<newline>c'' @ []"
    by (simp add: js_def)
  then have "sublist (js ''a   b\<newline>\<newline>\<newline>\<newline>c'') (js ''za   b\<newline>\<newline>\<newline>\<newline>c'')"
    by (metis sublist_appendI)
  moreover have "cleanContent (VString (js ''za   b\<newline>\<newline>\<newline>\<newline>c'')) = Inr (js ''za b\<newline>\<newline>c'')"
    by (simp add: cleanContent_def clean_chain_def js_def trim_def is_blank_def is_white_space_def)
  moreover have "js ''za b\<newline>\<newline>c'' \<noteq> js ''a b\<newline>\<newline>c''"
    by (simp add: js_def)
  ultimately show ?thesis by simp
qed

text \<open>
  C5, amended. For every input that contains the sample, the normalized input contains
  the normalized sample, \<open>a b\<close>, an empty line and \<open>c\<close> (and the sample alone is normalized
  to exactly that). The rule behind it is general: every maximal run of spaces and
  tabs becomes one space and everything else is kept; then every maximal run of three
  or more line feeds becomes two line feeds, shorter runs and everything else are
  kept; and only then are the lines, and at last the whole string, trimmed.
\<close>

theorem cleanContent_sample_amended:
  "cleanContent (VString (js ''a   b\<newline>\<newline>\<newline>\<newline>c'')) = Inr (js ''a b\<newline>\<newline>c'') \<and>
   (sublist (js ''a   b\<newline>\<newline>\<newline>\<newline>c'') x \<longrightarrow>
      (\<exists>y. cleanContent (VString x) = Inr y \<and> sublist (js ''a b\<newline>\<newline>c'') y)) \<and>
   cleanContent (VString x) =
     Inr (trim (join_nl (map trim (split_nl (collapse_newlines (collapse_blanks x)))))) \<and>
   (r \<noteq> [] \<and> (\<forall>c\<in>set r. c = 0x20 \<or> c = 0x09) \<and>
    (p = [] \<or> last p \<noteq> 0x20 \<and> last p \<noteq> 0x09) \<and> (q = [] \<or> hd q \<noteq> 0x20 \<and> hd q \<noteq> 0x09) \<longrightarrow>
      collapse_blanks (p @ r @ q) = collapse_blanks p @ 0x20 # collapse_blanks q) \<and>
   ((\<forall>c\<in>set u. c \<noteq> 0x20 \<and> c \<noteq> 0x09) \<longrightarrow> collapse_blanks u = u) \<and>
   ((p = [] \<or> last p \<noteq> 0x0A) \<and> (q = [] \<or> hd q \<noteq> 0x0A) \<longrightarrow>
      collapse_newlines (p @ replicate n 0x0A @ q) =
        collapse_newlines p @ replicate (if 3 \<le> n then 2 else n) 0x0A @ collapse_newlines q) \<and>
   (0x0A \<notin> set u \<longrightarrow> collapse_newlines u = u)"
proof (intro conjI impI)
  show "cleanContent (VString (js ''a   b\<newline>\<newline>\<newline>\<newline>c'')) = Inr (js ''a b\<newline>\<newline>c'')"
    by (simp add: cleanContent_def clean_chain_def js_def trim_def is_blank_def is_white_space_def)
next
  assume "sublist (js ''a   b\<newline>\<newline>\<newline>\<newline>c'') x"
  then obtain a b where "x = a @ js ''a   b\<newline>\<newline>\<newline>\<newline>c'' @ b"
    by (auto simp: sublist_def)
  then show "\<exists>y. cleanContent (VString x) = Inr y \<and> sublist (js ''a b\<newline>\<newline>c'') y"
    using clean_chain_keeps_sample [of a b] by (auto simp: sublist_def cleanContent_VString)
next
  show "cleanContent (VString x) =
     Inr (trim (join_nl (map trim (split_nl (collapse_newlines (collapse_blanks x))))))"
    by (simp add: cleanContent_VString clean_chain_def)
next
  assume "r \<noteq> [] \<and> (\<forall>c\<in>set r. c = 0x20 \<or> c = 0x09) \<and>
    (p = [] \<or> last p \<noteq> 0x20 \<and> last p \<noteq> 0x09) \<and> (q = [] \<or> hd q \<noteq> 0x20 \<and> hd q \<noteq> 0x09)"
  then show "collapse_blanks (p @ r @ q) = collapse_blanks p @ 0x20 # collapse_blanks q"
    by (intro collapse_blanks_rule) (auto simp: is_blank_def)
next
  assume "\<forall>c\<in>set u. c \<noteq> 0x20 \<and> c \<noteq> 0x09"
  then show "collapse_blanks u = u"
    by (intro collapse_blanks_no_blank) (auto simp: is_blank_def)
next
  assume "(p = [] \<or> last p \<noteq> 0x0A) \<and> (q = [] \<or> hd q \<noteq> 0x0A)"
  then show "collapse_newlines (p @ replicate n 0x0A @ q) =
        collapse_newlines p @ replicate (if 3 \<le> n then 2 else n) 0x0A @ collapse_newlines q"
    by (intro collapse_newlines_rule) auto
next
  assume "0x0A \<notin> set u"
  then show "collapse_newlines u = u" by (rule collapse_newlines_no_LF)
qed

theorem cleanContent_sample_amended_witness:
  "sublist (js ''a   b\<newline>\<newline>\<newline>\<newline>c'') (js ''z \<newline>a   b\<newline>\<newline>\<newline>\<newline>c y'') \<and>
   (\<exists>y. cleanContent (VString (js ''z \<newline>a   b\<newline>\<newline>\<newline>\<newline>c y'')) = Inr y \<and>
        sublist (js ''a b\<newline>\<newline>c'') y) \<and>
   collapse_blanks (js ''x'' @ [0x20, 0x09, 0x20] @ js ''y'') = js ''x y'' \<and>
   collapse_newlines (js ''x'' @ replicate 5 0x0A @ js ''y'') = js ''x\<newline>\<newline>y'' \<and>
   collapse_newlines (js ''x'' @ replicate 2 0x0A @ js ''y'') = js ''x\<newline>\<newline>y''"
proof -
  have "js ''z \<newline>a   b\<newline>\<newline>\<newline>\<newline>c y'' = js ''z \<newline>'' @ js ''a   b\<newline>\<newline>\<newline>\<newline>c'' @ js '' y''"
    by (simp add: js_def)
  then have 1: "sublist (js ''a   b\<newline>\<newline>\<newline>\<newline>c'') (js ''z \<newline>a   b\<newline>\<newline>\<newline>\<newline>c y'')"
    by (metis sublist_appendI)
  have 2: "[0x20, 0x09, 0x20] \<noteq> [] \<and> (\<forall>c\<in>set [0x20, 0x09, 0x20 :: jschar]. c = 0x20 \<or> c = 0x09) \<and>
    (js ''x'' = [] \<or> last (js ''x'') \<noteq> 0x20 \<and> last (js ''x'') \<noteq> 0x09) \<and>
    (js ''y'' = [] \<or> hd (js ''y'') \<noteq> 0x20 \<and> hd (js ''y'') \<noteq> 0x09)"
    by (simp add: js_def)
  have 3: "(js ''x'' = [] \<or> last (js ''x'') \<noteq> 0x0A) \<and> (js ''y'' = [] \<or> hd (js ''y'') \<noteq> 0x0A)"
    by (simp add: js_def)
  have 4: "collapse_blanks (js ''x'') = js ''x''" "collapse_blanks (js ''y'') = js ''y''"
    "collapse_newlines (js ''x'') = js ''x''" "collapse_newlines (js ''y'') = js ''y''"
    by (simp_all add: js_def is_blank_def)
  note t = cleanContent_sample_amended
    [of "js ''z \<newline>a   b\<newline>\<newline>\<newline>\<newline>c y''" "[0x20, 0x09, 0x20]" "js ''x''" "js ''y''" _ 5]
  note t2 = cleanContent_sample_amended
    [of "js ''z \<newline>a   b\<newline>\<newline>\<newline>\<newline>c y''" "[0x20, 0x09, 0x20]" "js ''x''" "js ''y''" _ 2]
  have a: "\<exists>y. cleanContent (VString (js ''z \<newline>a   b\<newline>\<newline>\<newline>\<newline>c y'')) = Inr y \<and>
        sublist (js ''a b\<newline>\<newline>c'') y"
    using t 1 by blast
  have b: "collapse_blanks (js ''x'' @ [0x20, 0x09, 0x20] @ js ''y'') =
      collapse_blanks (js ''x'') @ 0x20 # collapse_blanks (js ''y'')"
    using t 2 by blast
  have c: "collapse_newlines (js ''x'' @ replicate 5 0x0A @ js ''y'') =
      collapse_newlines (js ''x'') @ replicate (if 3 \<le> (5::nat) then 2 else 5) 0x0A @
      collapse_newlines (js ''y'')"
    using t 3 by blast
  have d: "collapse_newlines (js ''x'' @ replicate 2 0x0A @ js ''y'') =
      collapse_newlines (js ''x'') @ replicate (if 3 \<le> (2::nat) then 2 else 2) 0x0A @
      collapse_newlines (js ''y'')"
    using t2 3 by blast
  have e: "js ''x'' @ 0x20 # js ''y'' = js ''x y''"
    "js ''x'' @ replicate 2 0x0A @ js ''y'' = js ''x\<newline>\<newline>y''"
    by (simp_all add: js_def numeral_2_eq_2)
  from 1 a b c d show ?thesis unfolding 4 by (simp add: e)
qed

section \<open>Properties of the orchestrator and of the upload route\<close>

text \<open>
  C2, as claimed, fails where the operating system refuses the deletion: the error is
  swallowed, the call returns the text, and the file is still there.
\<close>

theorem extractFromFile_file_remains:
  "fst (extractFromFile sample_env (sample_file (js ''text/plain''))
          (sample_world (ascii_bytes ''Hi'') [js ''uploads/1-notes'' \<mapsto> eperm])) = Inr (js ''Hi'') \<and>
   files (snd (extractFromFile sample_env (sample_file (js ''text/plain''))
          (sample_world (ascii_bytes ''Hi'') [js ''uploads/1-notes'' \<mapsto> eperm])))
     (path (sample_file (js ''text/plain''))) \<noteq> None"
  by (simp add: eval_defs)

text \<open>
  C2, amended. Every call of \<open>extractFromFile\<close> that returns or throws has, before it
  does so and on the success path and the failure path alike, checked once whether the
  file at the path of the upload exists and, when it does, made one attempt to delete
  it; it has deleted no other file. When that attempt does not fail, the file no
  longer exists afterwards; when it fails, the failure is swallowed and the file is
  left as it was.
\<close>

theorem extractFromFile_cleans_up_once:
  "returns_or_raises (fst (extractFromFile ev file w)) \<longrightarrow>
   trace (snd (extractFromFile ev file w)) =
     trace w @ new_events w (snd (extractFromFile ev file w)) \<and>
   count_list (new_events w (snd (extractFromFile ev file w))) (ExistsSync (path file)) = 1 \<and>
   count_list (new_events w (snd (extractFromFile ev file w))) (UnlinkSync (path file)) =
     (if files w (path file) = None then 0 else 1) \<and>
   (\<forall>q. q \<noteq> path file \<longrightarrow>
      UnlinkSync q \<notin> set (new_events w (snd (extractFromFile ev file w)))) \<and>
   (unlink_failure w (path file) = None \<longrightarrow>
      files (snd (extractFromFile ev file w)) (path file) = None) \<and>
   (unlink_failure w (path file) \<noteq> None \<longrightarrow>
      files (snd (extractFromFile ev file w)) (path file) = files w (path file)) \<and>
   (\<forall>q. q \<noteq> path file \<longrightarrow> files (snd (extractFromFile ev file w)) q = files w q)"
  using extractFromFile_cleanup [OF refl refl, of ev "file" w] by blast

theorem extractFromFile_cleans_up_once_witness:
  "returns_or_raises (fst (extractFromFile sample_env (sample_file (js ''text/plain''))
      (sample_world (ascii_bytes ''Hi'') Map.empty))) \<and>
   unlink_failure (sample_world (ascii_bytes ''Hi'') Map.empty) (path (sample_file (js ''text/plain''))) = None \<and>
   files (sample_world (ascii_bytes ''Hi'') Map.empty) (path (sample_file (js ''text/plain''))) \<noteq> None \<and>
   files (snd (extractFromFile sample_env (sample_file (js ''text/plain''))
      (sample_world (ascii_bytes ''Hi'') Map.empty))) (path (sample_file (js ''text/plain''))) = None \<and>
   count_list (new_events (sample_world (ascii_bytes ''Hi'') Map.empty)
      (snd (extractFromFile sample_env (sample_file (js ''text/plain''))
         (sample_world (ascii_bytes ''Hi'') Map.empty))))
      (UnlinkSync (path (sample_file (js ''text/plain'')))) = 1"
proof -
  have 0: "returns_or_raises (fst (extractFromFile sample_env (sample_file (js ''text/plain''))
      (sample_world (ascii_bytes ''Hi'') Map.empty)))"
    by (simp add: eval_defs)
  have 1: "unlink_failure (sample_world (ascii_bytes ''Hi'') Map.empty)
      (path (sample_file (js ''text/plain''))) = None"
    by (simp add: sample_world_def)
  have 2: "files (sample_world (ascii_bytes ''Hi'') Map.empty)
      (path (sample_file (js ''text/plain''))) \<noteq> None"
    by (simp add: sample_world_def sample_file_def)
  from 0 1 2 extractFromFile_cleans_up_once [of sample_env "sample_file (js ''text/plain'')"
      "sample_world (ascii_bytes ''Hi'') Map.empty"]
  show ?thesis by simp
qed

text \<open>
  C3, as claimed, fails: an upload of an unsupported type is not read, but it is not
  left untouched either; the error path deletes it.
\<close>

theorem extractFromFile_unsupported_deletes:
  "fst (extractFromFile sample_env (sample_file (js ''application/json''))
          (sample_world (ascii_bytes ''{}'') Map.empty)) =
     Inl (Thrown (new_Error (js ''Unsupported file type: application/json''))) \<and>
   files (sample_world (ascii_bytes ''{}'') Map.empty) (js ''uploads/1-notes'') =
     Some (ascii_bytes ''{}'') \<and>
   files (snd (extractFromFile sample_env (sample_file (js ''application/json''))
          (sample_world (ascii_bytes ''{}'') Map.empty))) (js ''uploads/1-notes'') = None \<and>
   trace (snd (extractFromFile sample_env (sample_file (js ''application/json''))
          (sample_world (ascii_bytes ''{}'') Map.empty))) =
     [ExistsSync (js ''uploads/1-notes''), UnlinkSync (js ''uploads/1-notes''),
      ConsoleLog CleanedUp]"
  by (simp add: eval_defs)

text \<open>
  C3, amended. The extractor is chosen by exact match for the PDF type, by the prefix
  \<open>image/\<close>, and by exact match for plain text; what the chosen extractor throws is
  thrown on, and what it returns is normalized. For any other type the call throws the
  error that names the type, without a read of the file and without a run of the OCR
  engine; what it does to the world is what \<open>cleanupFile\<close> does, which deletes the
  upload.
\<close>

theorem extractFromFile_dispatch:
  "(mimetype file = js ''application/pdf'' \<longrightarrow>
      fst (extractFromFile ev file w) =
        (case fst (extractFromPDF ev (path file) w) of
           Inl a \<Rightarrow> Inl a
         | Inr c \<Rightarrow> map_sum Thrown id (cleanContent (VString c)))) \<and>
   (startsWith (mimetype file) (js ''image/'') \<longrightarrow>
      fst (extractFromFile ev file w) =
        (case fst (extractFromImage ev (path file) w) of
           Inl a \<Rightarrow> Inl a
         | Inr c \<Rightarrow> map_sum Thrown id (cleanContent (VString c)))) \<and>
   (mimetype file = js ''text/plain'' \<longrightarrow>
      fst (extractFromFile ev file w) =
        (case fst (extractFromText ev (path file) w) of
           Inl a \<Rightarrow> Inl a
         | Inr c \<Rightarrow> map_sum Thrown id (cleanContent (VString c)))) \<and>
   (mimetype file \<noteq> js ''application/pdf'' \<and> \<not> startsWith (mimetype file) (js ''image/'') \<and>
    mimetype file \<noteq> js ''text/plain'' \<longrightarrow>
      fst (extractFromFile ev file w) =
        Inl (Thrown (new_Error (js ''Unsupported file type: '' @ mimetype file))) \<and>
      snd (extractFromFile ev file w) = snd (cleanupFile (path file) w) \<and>
      (\<forall>e\<in>set (new_events w (snd (extractFromFile ev file w))). \<not> is_read_event e))"
proof (intro conjI impI)
  assume "mimetype file = js ''application/pdf''"
  then show "fst (extractFromFile ev file w) =
        (case fst (extractFromPDF ev (path file) w) of
           Inl a \<Rightarrow> Inl a
         | Inr c \<Rightarrow> map_sum Thrown id (cleanContent (VString c)))"
    by (simp add: fst_extractFromFile extractor_for_def)
next
  assume a: "startsWith (mimetype file) (js ''image/'')"
  then have "mimetype file \<noteq> js ''application/pdf''" using pdf_not_image by auto
  with a show "fst (extractFromFile ev file w) =
        (case fst (extractFromImage ev (path file) w) of
           Inl a \<Rightarrow> Inl a
         | Inr c \<Rightarrow> map_sum Thrown id (cleanContent (VString c)))"
    by (simp add: fst_extractFromFile extractor_for_def)
next
  assume "mimetype file = js ''text/plain''"
  then show "fst (extractFromFile ev file w) =
        (case fst (extractFromText ev (path file) w) of
           Inl a \<Rightarrow> Inl a
         | Inr c \<Rightarrow> map_sum Thrown id (cleanContent (VString c)))"
    by (simp add: fst_extractFromFile extractor_for_def plain_not_image plain_not_pdf)
next
  assume a: "mimetype file \<noteq> js ''application/pdf'' \<and>
    \<not> startsWith (mimetype file) (js ''image/'') \<and> mimetype file \<noteq> js ''text/plain''"
  then have x: "extractor_for ev file w =
      (Inl (Thrown (new_Error (js ''Unsupported file type: '' @ mimetype file))), w)"
    by (simp add: extractor_for_def throw_io_def)
  show "fst (extractFromFile ev file w) =
      Inl (Thrown (new_Error (js ''Unsupported file type: '' @ mimetype file)))"
    by (simp add: extractFromFile_eq x)
  show s: "snd (extractFromFile ev file w) = snd (cleanupFile (path file) w)"
    by (simp add: extractFromFile_eq x)
  show "\<forall>e\<in>set (new_events w (snd (extractFromFile ev file w))). \<not> is_read_event e"
    unfolding s by (rule cleanupFile_no_read)
qed

theorem extractFromFile_dispatch_witness:
  "mimetype (sample_file (js ''application/json'')) \<noteq> js ''application/pdf'' \<and>
   \<not> startsWith (mimetype (sample_file (js ''application/json''))) (js ''image/'') \<and>
   mimetype (sample_file (js ''application/json'')) \<noteq> js ''text/plain'' \<and>
   fst (extractFromFile sample_env (sample_file (js ''application/json''))
          (sample_world (ascii_bytes ''{}'') Map.empty)) =
     Inl (Thrown (new_Error (js ''Unsupported file type: '' @ js ''application/json''))) \<and>
   snd (extractFromFile sample_env (sample_file (js ''application/json''))
          (sample_world (ascii_bytes ''{}'') Map.empty)) =
     snd (cleanupFile (path (sample_file (js ''application/json'')))
          (sample_world (ascii_bytes ''{}'') Map.empty)) \<and>
   list_all (\<lambda>e. \<not> is_read_event e)
     (new_events (sample_world (ascii_bytes ''{}'') Map.empty)
        (snd (extractFromFile sample_env (sample_file (js ''application/json''))
          (sample_world (ascii_bytes ''{}'') Map.empty))))"
proof -
  have h: "mimetype (sample_file (js ''application/json'')) \<noteq> js ''application/pdf'' \<and>
   \<not> startsWith (mimetype (sample_file (js ''application/json''))) (js ''image/'') \<and>
   mimetype (sample_file (js ''application/json'')) \<noteq> js ''text/plain''"
    by (simp add: sample_file_def js_def startsWith_def)
  have m: "mimetype (sample_file (js ''application/json'')) = js ''application/json''"
    by (simp add: sample_file_def)
  from h extractFromFile_dispatch [of "sample_file (js ''application/json'')" sample_env
      "sample_world (ascii_bytes ''{}'') Map.empty"]
  show ?thesis unfolding m list_all_iff by blast
qed

text \<open>
  C4. A plain-text upload whose content decodes to the sample is extracted to
  \<open>Hello World\<close>, an empty line and \<open>Bye\<close>; the plain-text extractor returns the decoded
  content as it is, and the orchestrator normalizes it.
\<close>

theorem extractFromFile_plain_text_sample:
  assumes "mimetype file = js ''text/plain''"
    and "files w (path file) = Some b"
    and "read_failure w (path file) = None"
    and "utf8_decode ev b = js ''  Hello   World  \<newline>\<newline>\<newline>\<newline>Bye  ''"
  shows "fst (extractFromText ev (path file) w) = Inr (utf8_decode ev b) \<and>
         fst (extractFromFile ev file w) =
           map_sum Thrown id (cleanContent (VString (utf8_decode ev b))) \<and>
         fst (extractFromFile ev file w) = Inr (js ''Hello World\<newline>\<newline>Bye'')"
proof -
  have 1: "fst (extractFromText ev (path file) w) = Inr (utf8_decode ev b)"
    using assms(2,3) by (rule extractFromText_reads)
  have "extractor_for ev file = extractFromText ev (path file)"
    using assms(1) by (simp add: extractor_for_def plain_not_image plain_not_pdf)
  with 1 have 2: "fst (extractFromFile ev file w) =
      map_sum Thrown id (cleanContent (VString (utf8_decode ev b)))"
    by (simp add: fst_extractFromFile)
  have "cleanContent (VString (js ''  Hello   World  \<newline>\<newline>\<newline>\<newline>Bye  '')) =
      Inr (js ''Hello World\<newline>\<newline>Bye'')"
    by (simp add: cleanContent_def clean_chain_def js_def trim_def is_blank_def is_white_space_def)
  with 1 2 assms(4) show ?thesis by simp
qed

theorem extractFromFile_plain_text_sample_witness:
  "mimetype (sample_file (js ''text/plain'')) = js ''text/plain'' \<and>
   files (sample_world (ascii_bytes ''  Hello   World  \<newline>\<newline>\<newline>\<newline>Bye  '') Map.empty)
     (path (sample_file (js ''text/plain''))) =
     Some (ascii_bytes ''  Hello   World  \<newline>\<newline>\<newline>\<newline>Bye  '') \<and>
   utf8_decode sample_env (ascii_bytes ''  Hello   World  \<newline>\<newline>\<newline>\<newline>Bye  '') =
     js ''  Hello   World  \<newline>\<newline>\<newline>\<newline>Bye  '' \<and>
   fst (extractFromFile sample_env (sample_file (js ''text/plain''))
      (sample_world (ascii_bytes ''  Hello   World  \<newline>\<newline>\<newline>\<newline>Bye  '') Map.empty)) =
     Inr (js ''Hello World\<newline>\<newline>Bye'')"
proof -
  let ?b = "ascii_bytes ''  Hello   World  \<newline>\<newline>\<newline>\<newline>Bye  ''"
  have 1: "mimetype (sample_file (js ''text/plain'')) = js ''text/plain''"
    by (simp add: sample_file_def)
  have 2: "files (sample_world ?b Map.empty) (path (sample_file (js ''text/plain''))) = Some ?b"
    by (simp add: sample_world_def sample_file_def)
  have 3: "read_failure (sample_world ?b Map.empty) (path (sample_file (js ''text/plain''))) = None"
    by (simp add: sample_world_def)
  have 4: "utf8_decode sample_env ?b = js ''  Hello   World  \<newline>\<newline>\<newline>\<newline>Bye  ''"
    by (simp add: sample_env_def ascii_bytes_def js_def)
  from extractFromFile_plain_text_sample [OF 1 2 3 4] 1 2 4 show ?thesis by blast
qed

text \<open>
  C6. \<open>cleanupFile\<close> never throws. When the deletion fails, the error is written to the
  console and nothing else happens; and whether a deletion would fail has no influence
  on what \<open>extractFromFile\<close> returns or throws.
\<close>

theorem cleanupFile_never_raises:
  "fst (cleanupFile p w) = Inr () \<and>
   (files w p \<noteq> None \<longrightarrow> unlink_failure w p = Some e \<longrightarrow>
      snd (cleanupFile p w) =
        w\<lparr>trace := trace w @
             [ExistsSync p, UnlinkSync p, ConsoleError (js ''File cleanup error:'') e]\<rparr>) \<and>
   fst (extractFromFile ev file (w\<lparr>unlink_failure := uf\<rparr>)) = fst (extractFromFile ev file w)"
  by (auto simp: cleanupFile_eq fst_extractFromFile fst_extractor_for_unlink_failure)

theorem cleanupFile_never_raises_witness:
  "files (sample_world (ascii_bytes ''Hi'') [js ''uploads/1-notes'' \<mapsto> eperm])
     (js ''uploads/1-notes'') \<noteq> None \<and>
   unlink_failure (sample_world (ascii_bytes ''Hi'') [js ''uploads/1-notes'' \<mapsto> eperm])
     (js ''uploads/1-notes'') = Some eperm \<and>
   cleanupFile (js ''uploads/1-notes'')
     (sample_world (ascii_bytes ''Hi'') [js ''uploads/1-notes'' \<mapsto> eperm]) =
     (Inr (),
      (sample_world (ascii_bytes ''Hi'') [js ''uploads/1-notes'' \<mapsto> eperm])
        \<lparr>trace := [ExistsSync (js ''uploads/1-notes''), UnlinkSync (js ''uploads/1-notes''),
                   ConsoleError (js ''File cleanup error:'') eperm]\<rparr>)"
proof -
  let ?w = "sample_world (ascii_bytes ''Hi'') [js ''uploads/1-notes'' \<mapsto> eperm]"
  have 1: "files ?w (js ''uploads/1-notes'') \<noteq> None" by (simp add: sample_world_def)
  have 2: "unlink_failure ?w (js ''uploads/1-notes'') = Some eperm" by (simp add: sample_world_def)
  have 3: "trace ?w = []" by (simp add: sample_world_def)
  from cleanupFile_never_raises [of "js ''uploads/1-notes''" ?w eperm] 1 2 3
  show ?thesis by (simp add: prod_eq_iff)
qed



text \<open>
  C8. The code does not answer every failure with an error envelope. An image that the
  OCR engine cannot read ends the process inside the engine's message handler, since
  \<open>extractFromImage\<close> passes no \<open>errorHandler\<close>: its \<open>catch\<close> block is never entered, the
  upload is not deleted, and the request gets no response. On the sibling path a PDF
  that cannot be parsed does what the claim says: the error is thrown on as it is and
  answered with status 500 and the envelope that carries its message.
\<close>

theorem ocr_failure_gets_no_response:
  "recognize sample_env (Some (ascii_bytes ''Hi'')) =
     OcrFailure (js ''Error: Error attempting to read image.'') \<and>
   post_file sample_env (Some (sample_file (js ''image/png'')))
       (sample_world (ascii_bytes ''Hi'') Map.empty) =
     (Inl (Uncaught (new_Error (js ''Error: Error attempting to read image.''))),
      (sample_world (ascii_bytes ''Hi'') Map.empty)
        \<lparr>trace := [ConsoleLog (ProcessingFile (js ''notes'')), ConsoleLog RunningOcr,
                   Recognize (js ''uploads/1-notes'')]\<rparr>) \<and>
   files (snd (post_file sample_env (Some (sample_file (js ''image/png'')))
       (sample_world (ascii_bytes ''Hi'') Map.empty))) (js ''uploads/1-notes'') =
     Some (ascii_bytes ''Hi'') \<and>
   fst (post_file sample_env (Some (sample_file (js ''application/pdf'')))
       (sample_world (ascii_bytes ''Hi'') Map.empty)) =
     Inr \<lparr>status_code = 500,
          body = JObject [(''success'', JBool False),
            (''error'', JString (js ''Failed to extract text from PDF: Invalid PDF structure''))]\<rparr>"
  by (simp add: eval_defs post_file_def error_middleware_def error_envelope_def prod_eq_iff)

end
